theory Spec2Isabelle
  imports Main
begin

section \<open>promy: promises with cancellation and notification\<close>

text \<open>
  A shallow embedding of \<^verbatim>\<open>promy.py\<close>. Python objects live in an explicit store:
  promises are numbered records, foreign objects (candidates for thenable adoption)
  are numbered records of attributes, and the one-element lists \<^verbatim>\<open>resolved = [False]\<close>
  of \<^verbatim>\<open>_handle_thenable\<close> are numbered booleans. The closures that the module stores
  (listeners, scheduled thunks) are constructors of datatypes that carry the captured
  variables; the callbacks handed to a thenable are functions of the captured variables.
  A callback supplied by the user is a function from the positional arguments to a
  returned value or a raised exception, and does not call into the module itself; an
  executor and the \<^verbatim>\<open>then\<close> of a foreign object are the lists of calls they make on the
  functions they are given, at once or in a later turn. Every call of a user's function
  is appended to a trace. A function that may raise returns the exception, if any, next
  to the world that it leaves: an exception undoes nothing.
\<close>

subsection \<open>Values\<close>

type_synonym ref = nat

text \<open>
  Exceptions. \<open>UserError\<close> is any other subclass of \<^verbatim>\<open>Exception\<close>; the last three are the
  built-in exceptions that derive from \<^verbatim>\<open>BaseException\<close> and not from \<^verbatim>\<open>Exception\<close>, which
  a clause \<^verbatim>\<open>except Exception\<close> does not catch.
\<close>

datatype exn =
    TypeError string
  | CancelException string
  | UserError string
  | KeyboardInterrupt
  | SystemExit
  | GeneratorExit

definition is_Exception :: "exn \<Rightarrow> bool" where
  "is_Exception e =
     (case e of KeyboardInterrupt \<Rightarrow> False | SystemExit \<Rightarrow> False | GeneratorExit \<Rightarrow> False
      | _ \<Rightarrow> True)"

datatype val =
    VNone
  | VInt int
  | VStr string
  | VExn exn
  | VPromise ref
  | VObj ref

text \<open>
  A user function: \<open>NotFn\<close> is any value for which \<^verbatim>\<open>inspect.isfunction\<close> is false
  (\<^verbatim>\<open>None\<close> in particular); \<open>Fn name f\<close> is a function, \<open>f args\<close> being \<open>Inr\<close> the value it
  returns or \<open>Inl\<close> the exception it raises.
\<close>

datatype callback = NotFn | Fn string "val list \<Rightarrow> exn + val"

datatype obs = Called string "val list" | ThenCalled val

text \<open>
  The body of a foreign \<^verbatim>\<open>then(on_done, on_fail, on_progress)\<close>: what it does with the
  three callbacks it was given, in order, and the exception it raises at the end, if any.
  \<open>CallDone\<close>, \<open>CallFail\<close> and \<open>CallProgress\<close> call a callback before \<^verbatim>\<open>then\<close> returns;
  \<open>KeepDone\<close>, \<open>KeepFail\<close> and \<open>KeepProgress\<close> keep it and call it with the given value in
  a later turn. An exception that a callback raises ends \<^verbatim>\<open>then\<close> with that exception.
  \<^verbatim>\<open>inspect.isfunction\<close> holds of plain functions only: a bound method (the
  \<^verbatim>\<open>then\<close> of a \<^verbatim>\<open>Promise\<close> instance, or of any instance of a class that defines
  \<^verbatim>\<open>then\<close>) is \<open>NonFunction\<close>.
\<close>

datatype then_action =
    CallDone val | CallFail val | CallProgress val
  | KeepDone val | KeepFail val | KeepProgress val

datatype then_attr = NoAttr | NonFunction | ThenFn "then_action list" "exn option"

record obj =
  then_of :: then_attr
  cancel_of :: callback

subsection \<open>Promises, listeners and the scheduler's queue\<close>

text \<open>The second argument of \<^verbatim>\<open>_invoke_callback\<close>'s caller: \<^verbatim>\<open>_resolve\<close> or \<^verbatim>\<open>_reject\<close>.\<close>

datatype resolver = ResolveOp | RejectOp

text \<open>
  The event kinds are the keys \<^verbatim>\<open>"promise:resolved"\<close>, \<^verbatim>\<open>"promise:rejected"\<close>,
  \<^verbatim>\<open>"promise:notified"\<close> and \<^verbatim>\<open>"promise:cancelled"\<close> of \<^verbatim>\<open>_events\<close>.
\<close>

datatype tipe = EvResolved | EvRejected | EvNotified | EvCancelled

text \<open>
  The listeners: \<open>Tryer\<close> is \<^verbatim>\<open>tryer\<close> of \<^verbatim>\<open>Promise.__init__\<close>, \<open>OnCancel\<close> is
  \<^verbatim>\<open>on_cancel\<close> of \<^verbatim>\<open>_handle_thenable\<close>, \<open>OnDone\<close>, \<open>OnFail\<close> and \<open>OnProgress\<close> are
  \<^verbatim>\<open>on_done(event)\<close>, \<^verbatim>\<open>on_fail(event)\<close> and \<^verbatim>\<open>on_progress(event)\<close> of
  \<^verbatim>\<open>Promise.then\<close> (with the derived promise and the user's callback), and \<open>Raw name f\<close>
  is a function registered with \<^verbatim>\<open>_on\<close> directly.
\<close>

datatype listener =
    Tryer callback
  | OnCancel val
  | OnDone ref callback
  | OnFail ref callback
  | OnProgress ref callback
  | Raw string "val list \<Rightarrow> exn + val"

text \<open>\<^verbatim>\<open>_events[tipe]\<close> is one listener, or a list of them from the second on.\<close>

datatype slot = Single listener | Many "listener list"

record promise =
  rejected :: bool
  fulfilled :: bool
  rejected_reason :: val
  fulfillment_value :: val
  settled :: bool
  events :: "tipe \<Rightarrow> slot option"

text \<open>
  What \<^verbatim>\<open>_async\<close> hands to \<^verbatim>\<open>set_timeout\<close>: the lambdas of \<^verbatim>\<open>_fulfill\<close>,
  \<^verbatim>\<open>_reject\<close>, \<^verbatim>\<open>_notify\<close> and \<^verbatim>\<open>_cancel\<close> (\<open>EmitTask\<close>), and \<^verbatim>\<open>on_done()\<close> and
  \<^verbatim>\<open>on_fail()\<close> of \<^verbatim>\<open>Promise.then\<close> on a settled promise (\<open>LateDone self then_promise done\<close>,
  \<open>LateFail self then_promise fail\<close>). The last three are the calls that a foreign
  \<^verbatim>\<open>then\<close> has put off: of \<^verbatim>\<open>on_done\<close> (with the promise, the adopted value and the cell
  that the closure captured, and the argument), of \<^verbatim>\<open>on_fail\<close> and of \<^verbatim>\<open>on_progress\<close>.
\<close>

datatype task =
    EmitTask ref tipe val
  | LateDone ref ref callback
  | LateFail ref ref callback
  | DoneTask ref val nat val
  | FailTask ref nat val
  | ProgressTask ref val

record world =
  promises :: "ref \<Rightarrow> promise"
  next_ref :: ref
  objs :: "ref \<Rightarrow> obj"
  cells :: "nat \<Rightarrow> bool"
  next_cell :: nat
  queue :: "task list"
  trace :: "obs list"

text \<open>The state of the specification's data model, read off the flags.\<close>

datatype pstate = Pending | Fulfilled val | Rejected val

definition state_of :: "promise \<Rightarrow> pstate" where
  "state_of pr =
     (if fulfilled pr then Fulfilled (fulfillment_value pr)
      else if rejected pr then Rejected (rejected_reason pr)
      else Pending)"

definition get_promise :: "world \<Rightarrow> ref \<Rightarrow> promise" where
  "get_promise w p = promises w p"

definition set_promise :: "ref \<Rightarrow> promise \<Rightarrow> world \<Rightarrow> world" where
  "set_promise p pr w = w\<lparr>promises := (promises w)(p := pr)\<rparr>"

definition record_call :: "obs \<Rightarrow> world \<Rightarrow> world" where
  "record_call e w = w\<lparr>trace := trace w @ [e]\<rparr>"

subsection \<open>The listener registry: \<^verbatim>\<open>_on\<close>\<close>

definition on_event :: "ref \<Rightarrow> tipe \<Rightarrow> listener \<Rightarrow> world \<Rightarrow> world" where
  "on_event p t l w =
     (let pr = get_promise w p;
          s = (case events pr t of
                 None \<Rightarrow> Single l
               | Some (Single f) \<Rightarrow> Many [f, l]
               | Some (Many fs) \<Rightarrow> Many (fs @ [l]))
      in set_promise p (pr\<lparr>events := (events pr)(t := Some s)\<rparr>) w)"

subsection \<open>The scheduler\<close>

text \<open>
  Modelled from the spec: \<^verbatim>\<open>jsruntime.set_timeout\<close>, which is not part of the source.
  Sections 1 and 6 of the specification: fire and forget, first in first out, and the
  callback never runs before control returns to the caller of the scheduling call.
\<close>

definition async :: "task \<Rightarrow> world \<Rightarrow> world" where
  "async t w = w\<lparr>queue := queue w @ [t]\<rparr>"

subsection \<open>The settlement core\<close>

definition fulfill :: "ref \<Rightarrow> val \<Rightarrow> world \<Rightarrow> world" where
  "fulfill p v w =
     (let pr = get_promise w p in
      if settled pr then w
      else async (EmitTask p EvResolved v)
             (set_promise p (pr\<lparr>fulfilled := True, settled := True, fulfillment_value := v\<rparr>) w))"

definition reject :: "ref \<Rightarrow> val \<Rightarrow> world \<Rightarrow> world" where
  "reject p v w =
     (let pr = get_promise w p in
      if settled pr then w
      else async (EmitTask p EvRejected v)
             (set_promise p (pr\<lparr>rejected := True, settled := True, rejected_reason := v\<rparr>) w))"

definition notify :: "ref \<Rightarrow> val \<Rightarrow> world \<Rightarrow> world" where
  "notify p v w =
     (if settled (get_promise w p) then w else async (EmitTask p EvNotified v) w)"

subsection \<open>The resolution algorithm\<close>

definition get_then :: "world \<Rightarrow> val \<Rightarrow> then_attr" where
  "get_then w v =
     (case v of
        VObj k \<Rightarrow> then_of (objs w k)
      | VPromise q \<Rightarrow> NonFunction
      | _ \<Rightarrow> NoAttr)"

definition self_error :: exn where
  "self_error = TypeError ''A promise callback cannot return that same promise.''"

definition new_cell :: "world \<Rightarrow> world" where
  "new_cell w = w\<lparr>cells := (cells w)(next_cell w := False), next_cell := Suc (next_cell w)\<rparr>"

definition set_cell :: "nat \<Rightarrow> world \<Rightarrow> world" where
  "set_cell c w = w\<lparr>cells := (cells w)(c := True)\<rparr>"

text \<open>\<^verbatim>\<open>on_fail(val)\<close> of \<^verbatim>\<open>_handle_thenable\<close>, with the captured promise and cell.\<close>

definition on_fail :: "ref \<Rightarrow> nat \<Rightarrow> val \<Rightarrow> world \<Rightarrow> world" where
  "on_fail p c x w = (if cells w c then w else reject p x (set_cell c w))"

text \<open>
  \<^verbatim>\<open>_resolve\<close>, \<^verbatim>\<open>_handle_thenable\<close>, the call \<^verbatim>\<open>value.then(on_done, on_fail, on_progress)\<close>
  and the closure \<^verbatim>\<open>on_done(val)\<close> call each other in a cycle that need not end (two
  thenables may hand each other over for ever). The bodies are therefore written over
  \<open>rs\<close>, what the call \<^verbatim>\<open>_resolve(promise, val)\<close> inside \<^verbatim>\<open>on_done\<close> does, and the cycle
  is closed by recursion on fuel: \<open>None\<close> is a computation that nests adoptions deeper
  than the fuel allows. The cell \<^verbatim>\<open>resolved\<close> is allocated where the closures that
  capture it are made.
\<close>

type_synonym result = "(exn option \<times> world) option"

definition on_done_body ::
  "(ref \<Rightarrow> val \<Rightarrow> world \<Rightarrow> result) \<Rightarrow> ref \<Rightarrow> val \<Rightarrow> nat \<Rightarrow> val \<Rightarrow> world \<Rightarrow> result" where
  "on_done_body rs p v c x w =
     (if cells w c then Some (None, w)
      else if v \<noteq> x then rs p x (set_cell c w)
      else Some (None, fulfill p x (set_cell c w)))"

primrec run_then_body ::
  "(ref \<Rightarrow> val \<Rightarrow> world \<Rightarrow> result) \<Rightarrow> ref \<Rightarrow> val \<Rightarrow> nat \<Rightarrow> then_action list \<Rightarrow> world \<Rightarrow> result" where
  "run_then_body rs p v c [] w = Some (None, w)"
| "run_then_body rs p v c (a # as) w =
     (case a of
        CallDone x \<Rightarrow>
          (case on_done_body rs p v c x w of
             None \<Rightarrow> None
           | Some (r, w') \<Rightarrow>
               (case r of
                  Some e \<Rightarrow> Some (Some e, w')
                | None \<Rightarrow> run_then_body rs p v c as w'))
      | CallFail x \<Rightarrow> run_then_body rs p v c as (on_fail p c x w)
      | CallProgress x \<Rightarrow> run_then_body rs p v c as (notify p x w)
      | KeepDone x \<Rightarrow> run_then_body rs p v c as (async (DoneTask p v c x) w)
      | KeepFail x \<Rightarrow> run_then_body rs p v c as (async (FailTask p c x) w)
      | KeepProgress x \<Rightarrow> run_then_body rs p v c as (async (ProgressTask p x) w))"

text \<open>
  The clause \<^verbatim>\<open>except Exception as error\<close> of \<^verbatim>\<open>_handle_thenable\<close>, for the exception
  (if any) with which the \<^verbatim>\<open>try\<close> block ended: \<open>Inr True\<close> is \<^verbatim>\<open>return True\<close>, \<open>Inl e\<close> an
  exception that the clause does not catch.
\<close>

definition adoption_end :: "ref \<Rightarrow> exn option \<Rightarrow> world \<Rightarrow> (exn + bool) \<times> world" where
  "adoption_end p r w =
     (case r of
        None \<Rightarrow> (Inr True, w)
      | Some e \<Rightarrow> if is_Exception e then (Inr True, reject p (VExn e) w) else (Inl e, w))"

definition handle_thenable_body ::
  "(ref \<Rightarrow> val \<Rightarrow> world \<Rightarrow> result) \<Rightarrow> ref \<Rightarrow> val \<Rightarrow> world \<Rightarrow> ((exn + bool) \<times> world) option" where
  "handle_thenable_body rs p v w =
     (if v = VPromise p then Some (adoption_end p (Some self_error) w)
      else (case get_then w v of
              ThenFn acts final \<Rightarrow>
                (case run_then_body rs p v (next_cell w) acts
                        (record_call (ThenCalled v)
                           (on_event p EvCancelled (OnCancel v) (new_cell w))) of
                   None \<Rightarrow> None
                 | Some (r, w') \<Rightarrow>
                     Some (adoption_end p (case r of Some e \<Rightarrow> Some e | None \<Rightarrow> final) w'))
            | _ \<Rightarrow> Some (Inr False, w)))"

definition resolve_body ::
  "(ref \<Rightarrow> val \<Rightarrow> world \<Rightarrow> result) \<Rightarrow> ref \<Rightarrow> val \<Rightarrow> world \<Rightarrow> result" where
  "resolve_body rs p v w =
     (if v = VPromise p then Some (None, fulfill p v w)
      else (case handle_thenable_body rs p v w of
              None \<Rightarrow> None
            | Some (h, w') \<Rightarrow>
                (case h of
                   Inl e \<Rightarrow> Some (Some e, w')
                 | Inr handled \<Rightarrow>
                     if handled then Some (None, w') else Some (None, fulfill p v w'))))"

definition out_of_fuel :: "ref \<Rightarrow> val \<Rightarrow> world \<Rightarrow> result" where
  "out_of_fuel p v w = None"

primrec resolve :: "nat \<Rightarrow> ref \<Rightarrow> val \<Rightarrow> world \<Rightarrow> result" where
  "resolve 0 = resolve_body out_of_fuel"
| "resolve (Suc n) = resolve_body (resolve n)"

text \<open>What \<^verbatim>\<open>_resolve\<close> does when it is called from \<^verbatim>\<open>on_done\<close>, one level deeper.\<close>

definition nested :: "nat \<Rightarrow> ref \<Rightarrow> val \<Rightarrow> world \<Rightarrow> result" where
  "nested n = (case n of 0 \<Rightarrow> out_of_fuel | Suc m \<Rightarrow> resolve m)"

definition handle_thenable ::
  "nat \<Rightarrow> ref \<Rightarrow> val \<Rightarrow> world \<Rightarrow> ((exn + bool) \<times> world) option" where
  "handle_thenable n = handle_thenable_body (nested n)"

definition on_done :: "nat \<Rightarrow> ref \<Rightarrow> val \<Rightarrow> nat \<Rightarrow> val \<Rightarrow> world \<Rightarrow> result" where
  "on_done n = on_done_body (nested n)"

subsection \<open>Callback invocation\<close>

definition isfunction :: "callback \<Rightarrow> bool" where
  "isfunction c = (case c of NotFn \<Rightarrow> False | Fn name f \<Rightarrow> True)"

definition apply_resolver :: "nat \<Rightarrow> resolver \<Rightarrow> ref \<Rightarrow> val \<Rightarrow> world \<Rightarrow> result" where
  "apply_resolver n r p v w =
     (case r of ResolveOp \<Rightarrow> resolve n p v w | RejectOp \<Rightarrow> Some (None, reject p v w))"

text \<open>
  \<^verbatim>\<open>_invoke_callback\<close> from the call of \<^verbatim>\<open>_handle_thenable\<close> on, for the values that the
  local variables \<^verbatim>\<open>has_callback\<close>, \<^verbatim>\<open>succeeded\<close>, \<^verbatim>\<open>failed\<close>, \<^verbatim>\<open>error\<close> and \<^verbatim>\<open>value\<close> have
  there.
\<close>

definition settle_derived ::
  "nat \<Rightarrow> resolver \<Rightarrow> ref \<Rightarrow> bool \<Rightarrow> bool \<Rightarrow> bool \<Rightarrow> val \<Rightarrow> val \<Rightarrow> world \<Rightarrow> result" where
  "settle_derived n resolver p has_callback succeeded failed error value w =
     (case handle_thenable n p value w of
        None \<Rightarrow> None
      | Some (h, w') \<Rightarrow>
          (case h of
             Inl e \<Rightarrow> Some (Some e, w')
           | Inr handled \<Rightarrow>
               if handled then Some (None, w')
               else if has_callback \<and> succeeded then resolve n p value w'
               else if failed then Some (None, reject p error w')
               else apply_resolver n resolver p value w'))"

text \<open>
  \<^verbatim>\<open>_invoke_callback\<close>. An exception of the callback that the clause
  \<^verbatim>\<open>except Exception as e\<close> does not catch leaves the function. The branch without a
  callback assigns \<^verbatim>\<open>succeded\<close>, another variable, so \<^verbatim>\<open>succeeded\<close> stays false.
\<close>

definition invoke_callback ::
  "nat \<Rightarrow> resolver \<Rightarrow> ref \<Rightarrow> callback \<Rightarrow> val \<Rightarrow> world \<Rightarrow> result" where
  "invoke_callback n resolver p callback detail w =
     (if settled (get_promise w p) then Some (None, w)
      else
        (let has_callback = isfunction callback in
         (case callback of
            Fn name f \<Rightarrow>
              (case f [detail] of
                 Inr r \<Rightarrow>
                   settle_derived n resolver p has_callback True False VNone r
                     (record_call (Called name [detail]) w)
               | Inl e \<Rightarrow>
                   if is_Exception e
                   then settle_derived n resolver p has_callback False True (VExn e) VNone
                          (record_call (Called name [detail]) w)
                   else Some (Some e, record_call (Called name [detail]) w))
          | NotFn \<Rightarrow> settle_derived n resolver p has_callback False False VNone detail w)))"

text \<open>The exception that passes a clause \<^verbatim>\<open>except Exception\<close>.\<close>

definition uncaught :: "exn \<Rightarrow> exn option" where
  "uncaught e = (if is_Exception e then None else Some e)"

definition invoke_notify_callback ::
  "ref \<Rightarrow> callback \<Rightarrow> val \<Rightarrow> world \<Rightarrow> exn option \<times> world" where
  "invoke_notify_callback p callback detail w =
     (if settled (get_promise w p) then (None, w)
      else (case callback of
              Fn name f \<Rightarrow>
                (case f [detail] of
                   Inl e \<Rightarrow> (uncaught e, record_call (Called name [detail]) w)
                 | Inr value \<Rightarrow> (None, notify p value (record_call (Called name [detail]) w)))
            | NotFn \<Rightarrow> (None, notify p detail w)))"

subsection \<open>Calling a listener, and \<^verbatim>\<open>_emit\<close>\<close>

text \<open>
  \<^verbatim>\<open>tryer()\<close> and \<^verbatim>\<open>on_cancel()\<close> are defined without parameters. Their bodies catch
  every \<^verbatim>\<open>Exception\<close>; a call with an argument never reaches the body: the interpreter
  raises \<^verbatim>\<open>TypeError\<close> at the call.
\<close>

definition takes_no_argument :: "string \<Rightarrow> exn" where
  "takes_no_argument name = TypeError (name @ ''() takes 0 positional arguments but 1 was given'')"

definition takes_one_argument :: "string \<Rightarrow> exn" where
  "takes_one_argument name = TypeError (name @ ''() takes exactly 1 positional argument'')"

definition call_guarded :: "callback \<Rightarrow> world \<Rightarrow> exn option \<times> world" where
  "call_guarded c w =
     (case c of
        Fn name f \<Rightarrow>
          (case f [] of
             Inl e \<Rightarrow> (uncaught e, record_call (Called name []) w)
           | Inr r \<Rightarrow> (None, record_call (Called name []) w))
      | NotFn \<Rightarrow> (None, w))"

definition tryer_body :: "callback \<Rightarrow> world \<Rightarrow> exn option \<times> world" where
  "tryer_body canceller w = call_guarded canceller w"

definition get_cancel :: "world \<Rightarrow> val \<Rightarrow> callback" where
  "get_cancel w v = (case v of VObj k \<Rightarrow> cancel_of (objs w k) | _ \<Rightarrow> NotFn)"

definition on_cancel_body :: "val \<Rightarrow> world \<Rightarrow> exn option \<times> world" where
  "on_cancel_body v w = call_guarded (get_cancel w v) w"

text \<open>
  A call of a listener with positional arguments: \<open>Some (None, w')\<close> when it returns,
  \<open>Some (Some e, w')\<close> when it raises \<open>e\<close>, \<open>None\<close> when the fuel does not suffice.
\<close>

definition apply_listener :: "nat \<Rightarrow> listener \<Rightarrow> val list \<Rightarrow> world \<Rightarrow> result" where
  "apply_listener n l args w =
     (case l of
        Tryer canceller \<Rightarrow>
          (case args of
             [] \<Rightarrow> Some (tryer_body canceller w)
           | _ \<Rightarrow> Some (Some (takes_no_argument ''tryer''), w))
      | OnCancel v \<Rightarrow>
          (case args of
             [] \<Rightarrow> Some (on_cancel_body v w)
           | _ \<Rightarrow> Some (Some (takes_no_argument ''on_cancel''), w))
      | OnDone d done \<Rightarrow>
          (case args of
             [event] \<Rightarrow> invoke_callback n ResolveOp d done event w
           | _ \<Rightarrow> Some (Some (takes_one_argument ''on_done''), w))
      | OnFail d fail \<Rightarrow>
          (case args of
             [event] \<Rightarrow> invoke_callback n RejectOp d fail event w
           | _ \<Rightarrow> Some (Some (takes_one_argument ''on_fail''), w))
      | OnProgress d progress \<Rightarrow>
          (case args of
             [event] \<Rightarrow> Some (invoke_notify_callback d progress event w)
           | _ \<Rightarrow> Some (Some (takes_one_argument ''on_progress''), w))
      | Raw name f \<Rightarrow>
          (case f args of
             Inl e \<Rightarrow> Some (Some e, record_call (Called name args) w)
           | Inr r \<Rightarrow> Some (None, record_call (Called name args) w)))"

text \<open>The loop \<^verbatim>\<open>for fun in funs: fun(*lyst, **kwargs)\<close>: an exception leaves it.\<close>

primrec emit_list :: "nat \<Rightarrow> listener list \<Rightarrow> val list \<Rightarrow> world \<Rightarrow> result" where
  "emit_list n [] args w = Some (None, w)"
| "emit_list n (l # ls) args w =
     (case apply_listener n l args w of
        None \<Rightarrow> None
      | Some (r, w') \<Rightarrow>
          (case r of
             Some e \<Rightarrow> Some (Some e, w')
           | None \<Rightarrow> emit_list n ls args w'))"

text \<open>
  \<^verbatim>\<open>_emit(obj, tipe, *lyst)\<close>. Every call of the module passes one positional argument,
  the dictionary \<^verbatim>\<open>{"detail": value}\<close>, which the model passes as \<open>value\<close>. The list
  comprehension's copy is the list the model iterates over: listeners registered during
  the emission change the store, not that list.
\<close>

definition emit :: "nat \<Rightarrow> ref \<Rightarrow> tipe \<Rightarrow> val list \<Rightarrow> world \<Rightarrow> result" where
  "emit n p t args w =
     (case events (get_promise w p) t of
        None \<Rightarrow> Some (None, w)
      | Some (Single f) \<Rightarrow> apply_listener n f args w
      | Some (Many funs) \<Rightarrow> emit_list n funs args w)"

subsection \<open>Cancellation: \<^verbatim>\<open>_cancel\<close>\<close>

definition cancelled_reason :: val where
  "cancelled_reason = VExn (CancelException ''Cancelled'')"

text \<open>The three assignments of \<^verbatim>\<open>_cancel\<close>.\<close>

definition settle_cancelled :: "ref \<Rightarrow> world \<Rightarrow> world" where
  "settle_cancelled p w =
     set_promise p
       ((get_promise w p)\<lparr>rejected := True, settled := True, rejected_reason := cancelled_reason\<rparr>) w"

definition cancel :: "nat \<Rightarrow> ref \<Rightarrow> world \<Rightarrow> result" where
  "cancel n p w =
     (if settled (get_promise w p) then Some (None, w)
      else
        (case emit n p EvCancelled [VNone] (settle_cancelled p w) of
           None \<Rightarrow> None
         | Some (r, w') \<Rightarrow>
             (case r of
                Some e \<Rightarrow> Some (Some e, w')
              | None \<Rightarrow> Some (None, async (EmitTask p EvRejected cancelled_reason) w'))))"

subsection \<open>The class \<^verbatim>\<open>Promise\<close>\<close>

text \<open>
  An executor: the calls it makes on \<^verbatim>\<open>resolve\<close>, \<^verbatim>\<open>reject\<close> and \<^verbatim>\<open>notify\<close>, in order,
  and the exception it raises at the end, if any; an exception that \<^verbatim>\<open>resolve\<close> raises
  ends the executor with that exception. \<open>NotExecutor\<close> is a value that is no function.
\<close>

datatype exec_action = DoResolve val | DoReject val | DoNotify val

datatype executor = NotExecutor | Executor "exec_action list" "exn option"

definition empty_function :: executor where
  "empty_function = Executor [] None"

definition new_promise :: promise where
  "new_promise =
     \<lparr>rejected = False, fulfilled = False, rejected_reason = VNone,
      fulfillment_value = VNone, settled = False, events = (\<lambda>t. None)\<rparr>"

primrec run_executor :: "nat \<Rightarrow> ref \<Rightarrow> exec_action list \<Rightarrow> world \<Rightarrow> result" where
  "run_executor n self [] w = Some (None, w)"
| "run_executor n self (a # as) w =
     (case a of
        DoResolve v \<Rightarrow>
          (case resolve n self v w of
             None \<Rightarrow> None
           | Some (r, w') \<Rightarrow>
               (case r of
                  Some e \<Rightarrow> Some (Some e, w')
                | None \<Rightarrow> run_executor n self as w'))
      | DoReject v \<Rightarrow> run_executor n self as (reject self v w)
      | DoNotify v \<Rightarrow> run_executor n self as (notify self v w))"

definition executor_error :: exn where
  "executor_error = TypeError ''Promise(executor[, canceller]): executor must be a function''"

text \<open>
  \<^verbatim>\<open>Promise.__init__\<close>: \<open>allocate\<close> is the new object with the five assignments that
  open the constructor; \<open>constructed\<close> is the clause \<^verbatim>\<open>except Exception as e\<close> around the
  call of the executor; \<open>Inr self\<close> is the new promise, \<open>Inl e\<close> the exception of the
  constructor.
\<close>

definition allocate :: "world \<Rightarrow> world" where
  "allocate w =
     w\<lparr>promises := (promises w)(next_ref w := new_promise), next_ref := Suc (next_ref w)\<rparr>"

definition constructed :: "ref \<Rightarrow> exn option \<Rightarrow> world \<Rightarrow> (exn + ref) \<times> world" where
  "constructed self r w =
     (case r of
        None \<Rightarrow> (Inr self, w)
      | Some e \<Rightarrow> if is_Exception e then (Inr self, reject self (VExn e) w) else (Inl e, w))"

definition Promise_init ::
  "nat \<Rightarrow> executor \<Rightarrow> callback \<Rightarrow> world \<Rightarrow> ((exn + ref) \<times> world) option" where
  "Promise_init n ex canceller w =
     (let self = next_ref w in
      (case ex of
         NotExecutor \<Rightarrow> Some (Inl executor_error, allocate w)
       | Executor acts final \<Rightarrow>
           (case run_executor n self acts
                   (if isfunction canceller
                    then on_event self EvCancelled (Tryer canceller) (allocate w)
                    else allocate w) of
              None \<Rightarrow> None
            | Some (r, w') \<Rightarrow>
                Some (constructed self (case r of Some e \<Rightarrow> Some e | None \<Rightarrow> final) w'))))"

definition then_reactions :: "ref \<Rightarrow> ref \<Rightarrow> callback \<Rightarrow> callback \<Rightarrow> world \<Rightarrow> world" where
  "then_reactions self then_promise done fail w =
     (let pr = get_promise w self in
      if settled pr then
        (let w1 = (if fulfilled pr then async (LateDone self then_promise done) w else w)
         in (if rejected pr then async (LateFail self then_promise fail) w1 else w1))
      else on_event self EvRejected (OnFail then_promise fail)
             (on_event self EvResolved (OnDone then_promise done) w))"

definition Promise_then ::
  "nat \<Rightarrow> ref \<Rightarrow> callback \<Rightarrow> callback \<Rightarrow> callback \<Rightarrow> world \<Rightarrow> ((exn + ref) \<times> world) option" where
  "Promise_then n self done fail progress w =
     (case Promise_init n empty_function NotFn w of
        None \<Rightarrow> None
      | Some (r, w1) \<Rightarrow>
          (case r of
             Inl e \<Rightarrow> Some (Inl e, w1)
           | Inr then_promise \<Rightarrow>
               Some (Inr then_promise,
                     on_event self EvNotified (OnProgress then_promise progress)
                       (then_reactions self then_promise done fail w1))))"

definition Promise_catch ::
  "nat \<Rightarrow> ref \<Rightarrow> callback \<Rightarrow> world \<Rightarrow> ((exn + ref) \<times> world) option" where
  "Promise_catch n self fail w = Promise_then n self NotFn fail NotFn w"

definition Promise_progress ::
  "nat \<Rightarrow> ref \<Rightarrow> callback \<Rightarrow> world \<Rightarrow> ((exn + ref) \<times> world) option" where
  "Promise_progress n self progress w = Promise_then n self NotFn NotFn progress w"

definition Promise_cancel :: "nat \<Rightarrow> ref \<Rightarrow> world \<Rightarrow> result" where
  "Promise_cancel n self w =
     (if \<not> settled (get_promise w self) then cancel n self w else Some (None, w))"

subsection \<open>Running the queue\<close>

text \<open>
  Modelled from the spec: the scheduler's turn, which is not part of the source. A turn
  takes the oldest task and calls it without arguments; \<open>run\<close> makes the given number of
  turns and goes on after a task that raised.
\<close>

definition run_task :: "nat \<Rightarrow> task \<Rightarrow> world \<Rightarrow> result" where
  "run_task n t w =
     (case t of
        EmitTask p tp v \<Rightarrow> emit n p tp [v] w
      | LateDone self then_promise done \<Rightarrow>
          invoke_callback n ResolveOp then_promise done (fulfillment_value (get_promise w self)) w
      | LateFail self then_promise fail \<Rightarrow>
          invoke_callback n RejectOp then_promise fail (rejected_reason (get_promise w self)) w
      | DoneTask p v c x \<Rightarrow> on_done n p v c x w
      | FailTask p c x \<Rightarrow> Some (None, on_fail p c x w)
      | ProgressTask p x \<Rightarrow> Some (None, notify p x w))"

definition step :: "nat \<Rightarrow> world \<Rightarrow> result" where
  "step n w =
     (case queue w of
        [] \<Rightarrow> Some (None, w)
      | t # ts \<Rightarrow> run_task n t (w\<lparr>queue := ts\<rparr>))"

primrec run :: "nat \<Rightarrow> nat \<Rightarrow> world \<Rightarrow> world option" where
  "run n 0 w = Some w"
| "run n (Suc k) w = (case step n w of None \<Rightarrow> None | Some (r, w') \<Rightarrow> run n k w')"

subsection \<open>Properties of promises and of worlds\<close>

text \<open>
  \<open>pinv\<close> relates the three flags; \<open>frozen pr pr'\<close> says that a settled promise kept its
  flags and its outcome; \<open>evolves w w'\<close> says that from \<open>w\<close> to \<open>w'\<close> no promise was
  deallocated, every promise that satisfied \<open>pinv\<close> still does, and every allocated
  promise is frozen. \<open>sound rs\<close> says that every result of \<open>rs\<close> evolves its argument.
\<close>

definition pinv :: "promise \<Rightarrow> bool" where
  "pinv pr = ((settled pr = (fulfilled pr \<or> rejected pr)) \<and> \<not> (fulfilled pr \<and> rejected pr))"

definition frozen :: "promise \<Rightarrow> promise \<Rightarrow> bool" where
  "frozen pr pr' =
     (settled pr \<longrightarrow>
        settled pr' \<and> fulfilled pr' = fulfilled pr \<and> rejected pr' = rejected pr \<and>
        fulfillment_value pr' = fulfillment_value pr \<and> rejected_reason pr' = rejected_reason pr)"

definition evolves :: "world \<Rightarrow> world \<Rightarrow> bool" where
  "evolves w w' =
     (next_ref w \<le> next_ref w' \<and> objs w' = objs w \<and>
      (\<forall>p. (pinv (promises w p) \<longrightarrow> pinv (promises w' p)) \<and>
           (p < next_ref w \<longrightarrow> frozen (promises w p) (promises w' p))))"

definition sound :: "(ref \<Rightarrow> val \<Rightarrow> world \<Rightarrow> result) \<Rightarrow> bool" where
  "sound rs = (\<forall>p x w r w'. rs p x w = Some (r, w') \<longrightarrow> evolves w w')"


subsection \<open>Sequences of settlement operations\<close>

text \<open>
  A caller applying \<^verbatim>\<open>_fulfill\<close>, \<^verbatim>\<open>_reject\<close> and \<^verbatim>\<open>_cancel\<close> to one promise, one call
  after the other, going on after a call that raised.
\<close>

datatype settle_op = Fulfill val | Reject val | Cancel

definition settle :: "nat \<Rightarrow> ref \<Rightarrow> settle_op \<Rightarrow> world \<Rightarrow> (exn option \<times> world) option" where
  "settle n p op w =
     (case op of
        Fulfill v \<Rightarrow> Some (None, fulfill p v w)
      | Reject v \<Rightarrow> Some (None, reject p v w)
      | Cancel \<Rightarrow> cancel n p w)"

primrec settle_all :: "nat \<Rightarrow> ref \<Rightarrow> settle_op list \<Rightarrow> world \<Rightarrow> world option" where
  "settle_all n p [] w = Some w"
| "settle_all n p (op # ops) w =
     (case settle n p op w of None \<Rightarrow> None | Some (r, w') \<Rightarrow> settle_all n p ops w')"

definition first_outcome :: "settle_op \<Rightarrow> pstate" where
  "first_outcome op =
     (case op of
        Fulfill v \<Rightarrow> Fulfilled v
      | Reject v \<Rightarrow> Rejected v
      | Cancel \<Rightarrow> Rejected cancelled_reason)"

subsection \<open>Listeners\<close>

text \<open>
  The listeners of a promise for an event kind, in registration order; the listeners
  whose call spends no fuel; the listeners that \<^verbatim>\<open>Promise.then\<close> registers.
\<close>

definition listeners_of :: "promise \<Rightarrow> tipe \<Rightarrow> listener list" where
  "listeners_of pr t =
     (case events pr t of None \<Rightarrow> [] | Some (Single f) \<Rightarrow> [f] | Some (Many fs) \<Rightarrow> fs)"

definition fuel_free :: "listener \<Rightarrow> bool" where
  "fuel_free l = (case l of OnDone d c \<Rightarrow> False | OnFail d c \<Rightarrow> False | _ \<Rightarrow> True)"

subsection \<open>Late reactions\<close>

text \<open>Every promise of the world has consistent flags.\<close>

definition winv :: "world \<Rightarrow> bool" where
  "winv w = (\<forall>p. pinv (get_promise w p))"

text \<open>The reaction that \<^verbatim>\<open>then\<close> schedules on a settled promise with consistent flags.\<close>

definition late_reaction :: "promise \<Rightarrow> ref \<Rightarrow> ref \<Rightarrow> callback \<Rightarrow> callback \<Rightarrow> task" where
  "late_reaction pr self then_promise done fail =
     (if fulfilled pr then LateDone self then_promise done else LateFail self then_promise fail)"

subsection \<open>Adoption\<close>

text \<open>A value that \<^verbatim>\<open>_handle_thenable\<close> does not adopt.\<close>

definition plain :: "world \<Rightarrow> val \<Rightarrow> bool" where
  "plain w x = (case get_then w x of ThenFn acts final \<Rightarrow> False | _ \<Rightarrow> True)"

subsection \<open>What is seen of a result\<close>

text \<open>
  Of a call that may raise: the trace and the queue of the world it leaves, the exception,
  and the state of a promise. Of a call that only returns: the state of a promise.
\<close>

definition trace_of :: "(exn option \<times> world) option \<Rightarrow> obs list" where
  "trace_of r = (case r of None \<Rightarrow> [] | Some (e, w) \<Rightarrow> trace w)"

definition queue_of :: "(exn option \<times> world) option \<Rightarrow> task list" where
  "queue_of r = (case r of None \<Rightarrow> [] | Some (e, w) \<Rightarrow> queue w)"

definition raised_of :: "(exn option \<times> world) option \<Rightarrow> exn option" where
  "raised_of r = (case r of None \<Rightarrow> None | Some (e, w) \<Rightarrow> e)"

definition state_in :: "(exn option \<times> world) option \<Rightarrow> ref \<Rightarrow> pstate" where
  "state_in r p = (case r of None \<Rightarrow> Pending | Some (e, w) \<Rightarrow> state_of (get_promise w p))"

definition state_after :: "world option \<Rightarrow> ref \<Rightarrow> pstate" where
  "state_after r p = (case r of None \<Rightarrow> Pending | Some w \<Rightarrow> state_of (get_promise w p))"

subsection \<open>Concrete functions, objects and worlds\<close>

text \<open>
  Three functions of a user: \<open>ok\<close> returns \<^verbatim>\<open>None\<close>, \<open>boom\<close> raises, and
  \<open>returns_own_promise\<close> returns promise 0.
\<close>

definition ok :: "val list \<Rightarrow> exn + val" where
  "ok args = Inr VNone"

definition boom :: "val list \<Rightarrow> exn + val" where
  "boom args = Inl (UserError ''boom'')"

definition returns_own_promise :: "val list \<Rightarrow> exn + val" where
  "returns_own_promise args = Inr (VPromise 0)"

text \<open>An object without attributes, and one whose \<^verbatim>\<open>then\<close> is a function calling \<^verbatim>\<open>on_done(5)\<close>.\<close>

definition plain_obj :: obj where
  "plain_obj = \<lparr>then_of = NoAttr, cancel_of = NotFn\<rparr>"

definition thenable5 :: obj where
  "thenable5 = \<lparr>then_of = ThenFn [CallDone (VInt 5)] None, cancel_of = NotFn\<rparr>"

text \<open>
  The empty world, and the world with one pending promise, number 0, as
  \<^verbatim>\<open>Promise(_empty_function)\<close> leaves it.
\<close>

definition world0 :: world where
  "world0 =
     \<lparr>promises = (\<lambda>p. new_promise), next_ref = 0, objs = (\<lambda>k. plain_obj),
      cells = (\<lambda>c. False), next_cell = 0, queue = [], trace = []\<rparr>"

definition world1 :: world where
  "world1 = allocate world0"

text \<open>
  Promise 0 with a progress handler (derived promise 1), notified with 1 and then
  fulfilled with 2, before the scheduler has run.
\<close>

definition notified_then_fulfilled :: world where
  "notified_then_fulfilled =
     fulfill 0 (VInt 2)
       (notify 0 (VInt 1)
          (on_event 0 EvNotified (OnProgress 1 (Fn ''seen'' ok))
             (then_reactions 0 1 NotFn NotFn (allocate world1))))"

text \<open>Promise 0 with two functions registered for the resolved event by \<^verbatim>\<open>_on\<close>.\<close>

definition two_listeners :: world where
  "two_listeners =
     on_event 0 EvResolved (Raw ''seen'' ok) (on_event 0 EvResolved (Raw ''boom'' boom) world1)"

text \<open>The world after \<^verbatim>\<open>Promise(_empty_function, canceller)\<close>: promise 0 with its \<^verbatim>\<open>tryer\<close>.\<close>

definition with_canceller :: world where
  "with_canceller = on_event 0 EvCancelled (Tryer (Fn ''canceller'' ok)) (allocate world0)"

text \<open>
  Object 0 is \<open>thenable5\<close> and promise 0 is pending (\<open>adopting\<close>); promise 0 is rejected with
  that object (\<open>rejected_with_thenable\<close>), and \<^verbatim>\<open>catch()\<close> is then called on it, which makes
  the derived promise 1 (\<open>caught\<close>).
\<close>

definition adopting :: world where
  "adopting = world1\<lparr>objs := (objs world1)(0 := thenable5)\<rparr>"

definition rejected_with_thenable :: world where
  "rejected_with_thenable = reject 0 (VObj 0) adopting"

definition caught :: world where
  "caught =
     on_event 0 EvNotified (OnProgress 1 NotFn)
       (then_reactions 0 1 NotFn NotFn (allocate rejected_with_thenable))"

text \<open>
  Object 0 has a \<^verbatim>\<open>then\<close> function that calls \<^verbatim>\<open>on_done\<close> with the object itself; promise 0
  is pending.
\<close>

definition self_passing :: world where
  "self_passing =
     world1\<lparr>objs := (objs world1)
        (0 := \<lparr>then_of = ThenFn [CallDone (VObj 0)] None, cancel_of = NotFn\<rparr>)\<rparr>"


text \<open>
  A function of a user that raises \<^verbatim>\<open>KeyboardInterrupt\<close>; promise 0 with one progress
  handler, as \<^verbatim>\<open>progress(interrupts)\<close> leaves it (derived promise 1), and with a second one,
  as \<^verbatim>\<open>progress(ok)\<close> then leaves it (derived promise 2).
\<close>

definition interrupts :: "val list \<Rightarrow> exn + val" where
  "interrupts args = Inl KeyboardInterrupt"

definition one_progress_handler :: world where
  "one_progress_handler =
     on_event 0 EvNotified (OnProgress 1 (Fn ''interrupts'' interrupts))
       (then_reactions 0 1 NotFn NotFn (allocate world1))"

definition two_progress_handlers :: world where
  "two_progress_handlers =
     on_event 0 EvNotified (OnProgress 2 (Fn ''seen'' ok))
       (then_reactions 0 2 NotFn NotFn (allocate one_progress_handler))"

text \<open>
  Promise 0 with two listeners for the resolved event: the one that \<^verbatim>\<open>then(boom)\<close>
  registers (derived promise 1) and a function registered by \<^verbatim>\<open>_on\<close>.
\<close>

definition then_and_raw :: world where
  "then_and_raw =
     on_event 0 EvResolved (Raw ''seen'' ok)
       (on_event 0 EvResolved (OnDone 1 (Fn ''boom'' boom)) (allocate world1))"

text \<open>
  Promise 0 has a canceller (\<open>with_canceller\<close>). Either \<^verbatim>\<open>then(None, h)\<close> is called on it
  (\<open>then_before_cancel\<close>, derived promise 1) and \<^verbatim>\<open>cancel()\<close> afterwards
  (\<open>cancel_after_then\<close>), or \<^verbatim>\<open>cancel()\<close> is called first (\<open>cancel_before_then\<close>) and
  \<^verbatim>\<open>then(None, h)\<close> afterwards (\<open>then_after_cancel\<close>).
\<close>

definition then_before_cancel :: world where
  "then_before_cancel =
     on_event 0 EvNotified (OnProgress 1 NotFn)
       (on_event 0 EvRejected (OnFail 1 (Fn ''h'' ok))
          (on_event 0 EvResolved (OnDone 1 NotFn) (allocate with_canceller)))"

definition cancel_after_then :: world where
  "cancel_after_then = settle_cancelled 0 then_before_cancel"

definition cancel_before_then :: world where
  "cancel_before_then = settle_cancelled 0 with_canceller"

definition then_after_cancel :: world where
  "then_after_cancel =
     on_event 0 EvNotified (OnProgress 1 NotFn)
       (async (LateFail 0 1 (Fn ''h'' ok)) (allocate cancel_before_then))"

text \<open>
  Promise 0 is pending, and promise 1 is made by
  \<^verbatim>\<open>Promise(lambda resolve, reject, notify: resolve(q))\<close> where \<open>q\<close> is promise 0
  (\<open>resolved_with_promise\<close>).
\<close>

definition resolved_with_promise :: world where
  "resolved_with_promise = fulfill 1 (VPromise 0) (allocate world1)"

text \<open>
  Object 0 has a \<^verbatim>\<open>then\<close> function that keeps \<^verbatim>\<open>on_done\<close> and calls it with 5 after it has
  returned; promise 0 is pending (\<open>adopting_later\<close>) and is resolved with the object
  (\<open>adopted_later\<close>).
\<close>

definition adopting_later :: world where
  "adopting_later =
     world1\<lparr>objs := (objs world1)
        (0 := \<lparr>then_of = ThenFn [KeepDone (VInt 5)] None, cancel_of = NotFn\<rparr>)\<rparr>"

definition adopted_later :: world where
  "adopted_later =
     async (DoneTask 0 (VObj 0) 0 (VInt 5))
       (record_call (ThenCalled (VObj 0))
          (on_event 0 EvCancelled (OnCancel (VObj 0)) (new_cell adopting_later)))"

section \<open>Every operation evolves the world\<close>

lemma evolves_refl: "evolves w w"
  by (simp add: evolves_def frozen_def)

lemma evolves_trans: "evolves w1 w2 \<Longrightarrow> evolves w2 w3 \<Longrightarrow> evolves w1 w3"
  unfolding evolves_def frozen_def
  by (metis (no_types, lifting) less_le_trans order_trans)

lemma evolves_fulfill: "evolves w (fulfill p v w)"
  by (simp add: evolves_def frozen_def pinv_def fulfill_def Let_def async_def set_promise_def get_promise_def)

lemma evolves_reject: "evolves w (reject p v w)"
  by (simp add: evolves_def frozen_def pinv_def reject_def Let_def async_def set_promise_def get_promise_def)

lemma evolves_notify: "evolves w (notify p v w)"
  by (simp add: evolves_def frozen_def pinv_def notify_def async_def)

lemma evolves_async: "evolves w (async t w)"
  by (simp add: evolves_def frozen_def async_def)

lemma evolves_on_event: "evolves w (on_event p t l w)"
  by (simp add: evolves_def frozen_def pinv_def on_event_def Let_def set_promise_def get_promise_def)

lemma evolves_record_call: "evolves w (record_call e w)"
  by (simp add: evolves_def frozen_def record_call_def)

lemma evolves_new_cell: "evolves w (new_cell w)"
  by (simp add: evolves_def frozen_def new_cell_def)

lemma evolves_set_cell: "evolves w (set_cell c w)"
  by (simp add: evolves_def frozen_def set_cell_def)

lemma evolves_on_fail: "evolves w (on_fail p c x w)"
  unfolding on_fail_def
  by (auto intro: evolves_refl evolves_trans [OF evolves_set_cell evolves_reject])

lemma evolves_on_done_body:
  assumes "sound rs" and "on_done_body rs p v c x w = Some (r, w')"
  shows "evolves w w'"
proof (cases "cells w c")
  case True
  with assms(2) show ?thesis by (simp add: on_done_body_def evolves_refl)
next
  case False
  show ?thesis
  proof (cases "v = x")
    case True
    with False assms(2) show ?thesis
      by (auto simp: on_done_body_def intro: evolves_trans [OF evolves_set_cell evolves_fulfill])
  next
    case neq: False
    with False assms(2) have "rs p x (set_cell c w) = Some (r, w')"
      by (simp add: on_done_body_def)
    with assms(1) have "evolves (set_cell c w) w'" by (auto simp: sound_def)
    with evolves_set_cell show ?thesis by (rule evolves_trans)
  qed
qed

lemma evolves_run_then_body:
  "sound rs \<Longrightarrow> run_then_body rs p v c acts w = Some (r, w') \<Longrightarrow> evolves w w'"
proof (induction acts arbitrary: w)
  case Nil
  then show ?case by (simp add: evolves_refl)
next
  case (Cons a acts)
  show ?case
  proof (cases a)
    case (CallDone x)
    from Cons.prems(2) CallDone obtain r1 w1 where 1: "on_done_body rs p v c x w = Some (r1, w1)"
      by (cases "on_done_body rs p v c x w") auto
    note e1 = evolves_on_done_body [OF Cons.prems(1) 1]
    show ?thesis
    proof (cases r1)
      case None
      with Cons.prems(2) CallDone 1 have "run_then_body rs p v c acts w1 = Some (r, w')" by simp
      from e1 Cons.IH [OF Cons.prems(1) this] show ?thesis by (rule evolves_trans)
    next
      case (Some e)
      with Cons.prems(2) CallDone 1 have "w' = w1" by simp
      with e1 show ?thesis by simp
    qed
  next
    case (CallFail x)
    with Cons.prems have "run_then_body rs p v c acts (on_fail p c x w) = Some (r, w')" by simp
    from evolves_on_fail Cons.IH [OF Cons.prems(1) this] show ?thesis by (rule evolves_trans)
  next
    case (CallProgress x)
    with Cons.prems have "run_then_body rs p v c acts (notify p x w) = Some (r, w')" by simp
    from evolves_notify Cons.IH [OF Cons.prems(1) this] show ?thesis by (rule evolves_trans)
  next
    case (KeepDone x)
    with Cons.prems have "run_then_body rs p v c acts (async (DoneTask p v c x) w) = Some (r, w')"
      by simp
    from evolves_async Cons.IH [OF Cons.prems(1) this] show ?thesis by (rule evolves_trans)
  next
    case (KeepFail x)
    with Cons.prems have "run_then_body rs p v c acts (async (FailTask p c x) w) = Some (r, w')"
      by simp
    from evolves_async Cons.IH [OF Cons.prems(1) this] show ?thesis by (rule evolves_trans)
  next
    case (KeepProgress x)
    with Cons.prems have "run_then_body rs p v c acts (async (ProgressTask p x) w) = Some (r, w')"
      by simp
    from evolves_async Cons.IH [OF Cons.prems(1) this] show ?thesis by (rule evolves_trans)
  qed
qed

lemma evolves_adoption_end: "adoption_end p r w = (h, w') \<Longrightarrow> evolves w w'"
  by (cases r) (auto simp: adoption_end_def split: if_splits intro: evolves_refl evolves_reject)

lemma evolves_handle_thenable_body:
  assumes "sound rs" and "handle_thenable_body rs p v w = Some (h, w')"
  shows "evolves w w'"
proof (cases "v = VPromise p")
  case True
  with assms(2) show ?thesis by (auto simp: handle_thenable_body_def intro: evolves_adoption_end)
next
  case False
  show ?thesis
  proof (cases "get_then w v")
    case (ThenFn acts final)
    let ?w0 = "record_call (ThenCalled v) (on_event p EvCancelled (OnCancel v) (new_cell w))"
    from assms(2) False ThenFn obtain r1 w1 where
      1: "run_then_body rs p v (next_cell w) acts ?w0 = Some (r1, w1)"
      and 2: "adoption_end p (case r1 of Some e \<Rightarrow> Some e | None \<Rightarrow> final) w1 = (h, w')"
      by (cases "run_then_body rs p v (next_cell w) acts ?w0")
         (auto simp: handle_thenable_body_def)
    have "evolves w ?w0"
      by (blast intro: evolves_trans evolves_new_cell evolves_on_event evolves_record_call)
    moreover have "evolves ?w0 w1" by (rule evolves_run_then_body [OF assms(1) 1])
    moreover have "evolves w1 w'" by (rule evolves_adoption_end [OF 2])
    ultimately show ?thesis by (blast intro: evolves_trans)
  qed (use assms(2) False in \<open>auto simp: handle_thenable_body_def evolves_refl\<close>)
qed

lemma evolves_resolve_body:
  assumes "sound rs" and "resolve_body rs p v w = Some (r, w')"
  shows "evolves w w'"
proof (cases "v = VPromise p")
  case True
  with assms(2) show ?thesis by (auto simp: resolve_body_def evolves_fulfill)
next
  case False
  with assms(2) obtain h w1 where 1: "handle_thenable_body rs p v w = Some (h, w1)"
    by (cases "handle_thenable_body rs p v w") (auto simp: resolve_body_def)
  note e1 = evolves_handle_thenable_body [OF assms(1) 1]
  show ?thesis
  proof (cases h)
    case (Inl e)
    with assms(2) False 1 e1 show ?thesis by (auto simp: resolve_body_def)
  next
    case (Inr handled)
    with assms(2) False 1 have "w' = w1 \<or> w' = fulfill p v w1"
      by (auto simp: resolve_body_def split: if_splits)
    with e1 evolves_trans [OF e1 evolves_fulfill] show ?thesis by auto
  qed
qed

lemma sound_out_of_fuel: "sound out_of_fuel"
  by (simp add: sound_def out_of_fuel_def)

lemma sound_resolve: "sound (resolve n)"
proof (induction n)
  case 0
  show ?case using evolves_resolve_body [OF sound_out_of_fuel] by (simp add: sound_def)
next
  case (Suc n)
  show ?case using evolves_resolve_body [OF Suc] by (simp add: sound_def)
qed

lemma sound_nested: "sound (nested n)"
  by (cases n) (simp_all add: nested_def sound_out_of_fuel sound_resolve)

lemma evolves_resolve: "resolve n p v w = Some (r, w') \<Longrightarrow> evolves w w'"
  using sound_resolve by (auto simp: sound_def)

lemma evolves_handle_thenable: "handle_thenable n p v w = Some (h, w') \<Longrightarrow> evolves w w'"
  unfolding handle_thenable_def by (rule evolves_handle_thenable_body [OF sound_nested])

lemma evolves_on_done: "on_done n p v c x w = Some (r, w') \<Longrightarrow> evolves w w'"
  unfolding on_done_def by (rule evolves_on_done_body [OF sound_nested])

lemma evolves_apply_resolver: "apply_resolver n r p v w = Some (e, w') \<Longrightarrow> evolves w w'"
  by (cases r) (auto simp: apply_resolver_def intro: evolves_resolve evolves_reject)

lemma evolves_settle_derived:
  assumes "settle_derived n rv p hc s f er x w = Some (r, w')"
  shows "evolves w w'"
proof -
  from assms obtain h w1 where 1: "handle_thenable n p x w = Some (h, w1)"
    by (cases "handle_thenable n p x w") (auto simp: settle_derived_def)
  note e1 = evolves_handle_thenable [OF 1]
  have "evolves w1 w'"
  proof (cases h)
    case (Inl e)
    with assms 1 show ?thesis by (simp add: settle_derived_def evolves_refl)
  next
    case (Inr handled)
    with assms 1 show ?thesis
      by (auto simp: settle_derived_def split: if_splits
            intro: evolves_refl evolves_resolve evolves_reject evolves_apply_resolver)
  qed
  with e1 show ?thesis by (rule evolves_trans)
qed

lemma invoke_callback_settled:
  "settled (get_promise w p) \<Longrightarrow> invoke_callback n r p cb d w = Some (None, w)"
  by (simp add: invoke_callback_def)

lemma invoke_callback_NotFn:
  "\<not> settled (get_promise w p) \<Longrightarrow>
   invoke_callback n r p NotFn d w = settle_derived n r p False False False VNone d w"
  by (simp add: invoke_callback_def isfunction_def)

lemma invoke_callback_returns:
  "\<not> settled (get_promise w p) \<Longrightarrow> f [d] = Inr x \<Longrightarrow>
   invoke_callback n r p (Fn name f) d w =
     settle_derived n r p True True False VNone x (record_call (Called name [d]) w)"
  by (simp add: invoke_callback_def isfunction_def)

lemma invoke_callback_raises:
  "\<not> settled (get_promise w p) \<Longrightarrow> f [d] = Inl e \<Longrightarrow> is_Exception e \<Longrightarrow>
   invoke_callback n r p (Fn name f) d w =
     settle_derived n r p True False True (VExn e) VNone (record_call (Called name [d]) w)"
  by (simp add: invoke_callback_def isfunction_def)

lemma invoke_callback_uncaught:
  "\<not> settled (get_promise w p) \<Longrightarrow> f [d] = Inl e \<Longrightarrow> \<not> is_Exception e \<Longrightarrow>
   invoke_callback n r p (Fn name f) d w = Some (Some e, record_call (Called name [d]) w)"
  by (simp add: invoke_callback_def isfunction_def)

lemma evolves_invoke_callback:
  assumes "invoke_callback n r p cb d w = Some (e, w')"
  shows "evolves w w'"
proof (cases "settled (get_promise w p)")
  case True
  with assms show ?thesis by (simp add: invoke_callback_settled evolves_refl)
next
  case False
  show ?thesis
  proof (cases cb)
    case NotFn
    with assms False show ?thesis
      by (auto simp: invoke_callback_NotFn intro: evolves_settle_derived)
  next
    case (Fn name f)
    show ?thesis
    proof (cases "f [d]")
      case (Inr x)
      with assms False Fn
      have "settle_derived n r p True True False VNone x (record_call (Called name [d]) w) = Some (e, w')"
        by (simp add: invoke_callback_returns)
      from evolves_record_call evolves_settle_derived [OF this] show ?thesis
        by (rule evolves_trans)
    next
      case (Inl ex)
      show ?thesis
      proof (cases "is_Exception ex")
        case True
        with assms False Fn Inl
        have "settle_derived n r p True False True (VExn ex) VNone (record_call (Called name [d]) w)
                = Some (e, w')"
          by (simp add: invoke_callback_raises)
        from evolves_record_call evolves_settle_derived [OF this] show ?thesis
          by (rule evolves_trans)
      next
        case nex: False
        with assms False Fn Inl show ?thesis
          by (auto simp: invoke_callback_uncaught evolves_record_call)
      qed
    qed
  qed
qed

lemma evolves_invoke_notify_callback:
  "invoke_notify_callback p cb d w = (r, w') \<Longrightarrow> evolves w w'"
proof (cases "settled (get_promise w p)")
  case True
  then show "invoke_notify_callback p cb d w = (r, w') \<Longrightarrow> evolves w w'"
    by (auto simp: invoke_notify_callback_def evolves_refl)
next
  case False
  assume a: "invoke_notify_callback p cb d w = (r, w')"
  show ?thesis
  proof (cases cb)
    case NotFn
    with False a show ?thesis by (auto simp: invoke_notify_callback_def evolves_notify)
  next
    case (Fn name f)
    show ?thesis
    proof (cases "f [d]")
      case (Inl e)
      with False Fn a show ?thesis by (auto simp: invoke_notify_callback_def evolves_record_call)
    next
      case (Inr x)
      with False Fn a show ?thesis
        by (auto simp: invoke_notify_callback_def
              intro: evolves_trans [OF evolves_record_call evolves_notify])
    qed
  qed
qed

lemma evolves_call_guarded: "call_guarded c w = (r, w') \<Longrightarrow> evolves w w'"
  by (cases c; cases "case c of Fn name f \<Rightarrow> f [] | NotFn \<Rightarrow> Inr VNone")
     (auto simp: call_guarded_def intro: evolves_refl evolves_record_call)

lemma evolves_apply_listener: "apply_listener n l args w = Some (r, w') \<Longrightarrow> evolves w w'"
proof (cases l)
  case (Tryer c)
  then show "apply_listener n l args w = Some (r, w') \<Longrightarrow> evolves w w'"
    by (cases args)
       (auto simp: apply_listener_def tryer_body_def intro: evolves_refl evolves_call_guarded)
next
  case (OnCancel v)
  then show "apply_listener n l args w = Some (r, w') \<Longrightarrow> evolves w w'"
    by (cases args)
       (auto simp: apply_listener_def on_cancel_body_def intro: evolves_refl evolves_call_guarded)
next
  case (OnDone d cb)
  then show "apply_listener n l args w = Some (r, w') \<Longrightarrow> evolves w w'"
    by (cases args; cases "tl args")
       (auto simp: apply_listener_def intro: evolves_refl evolves_invoke_callback)
next
  case (OnFail d cb)
  then show "apply_listener n l args w = Some (r, w') \<Longrightarrow> evolves w w'"
    by (cases args; cases "tl args")
       (auto simp: apply_listener_def intro: evolves_refl evolves_invoke_callback)
next
  case (OnProgress d cb)
  then show "apply_listener n l args w = Some (r, w') \<Longrightarrow> evolves w w'"
    by (cases args; cases "tl args")
       (auto simp: apply_listener_def intro: evolves_refl evolves_invoke_notify_callback)
next
  case (Raw name f)
  then show "apply_listener n l args w = Some (r, w') \<Longrightarrow> evolves w w'"
    by (cases "f args") (auto simp: apply_listener_def intro: evolves_record_call)
qed

lemma evolves_emit_list: "emit_list n ls args w = Some (r, w') \<Longrightarrow> evolves w w'"
proof (induction ls arbitrary: w)
  case Nil
  then show ?case by (simp add: evolves_refl)
next
  case (Cons l ls)
  from Cons.prems obtain r1 w1 where 1: "apply_listener n l args w = Some (r1, w1)"
    by (cases "apply_listener n l args w") auto
  show ?case
  proof (cases r1)
    case None
    with Cons.prems 1 have "emit_list n ls args w1 = Some (r, w')" by simp
    from evolves_apply_listener [OF 1] Cons.IH [OF this] show ?thesis by (rule evolves_trans)
  next
    case (Some e)
    with Cons.prems 1 have "w' = w1" by simp
    with evolves_apply_listener [OF 1] show ?thesis by simp
  qed
qed

lemma evolves_emit: "emit n p t args w = Some (r, w') \<Longrightarrow> evolves w w'"
proof (cases "events (get_promise w p) t")
  case None
  then show "emit n p t args w = Some (r, w') \<Longrightarrow> evolves w w'"
    by (simp add: emit_def evolves_refl)
next
  case (Some s)
  then show "emit n p t args w = Some (r, w') \<Longrightarrow> evolves w w'"
    by (cases s) (auto simp: emit_def intro: evolves_apply_listener evolves_emit_list)
qed

lemma cancel_settled: "settled (get_promise w p) \<Longrightarrow> cancel n p w = Some (None, w)"
  by (simp add: cancel_def)

lemma cancel_pending:
  "\<not> settled (get_promise w p) \<Longrightarrow>
   cancel n p w =
     (case emit n p EvCancelled [VNone] (settle_cancelled p w) of
        None \<Rightarrow> None
      | Some (r, w') \<Rightarrow>
          (case r of
             Some e \<Rightarrow> Some (Some e, w')
           | None \<Rightarrow> Some (None, async (EmitTask p EvRejected cancelled_reason) w')))"
  by (simp add: cancel_def)

lemma evolves_settle_cancelled:
  "\<not> settled (get_promise w p) \<Longrightarrow> evolves w (settle_cancelled p w)"
  by (simp add: evolves_def frozen_def pinv_def settle_cancelled_def set_promise_def get_promise_def)

lemma evolves_cancel:
  assumes "cancel n p w = Some (r, w')"
  shows "evolves w w'"
proof (cases "settled (get_promise w p)")
  case True
  with assms show ?thesis by (simp add: cancel_settled evolves_refl)
next
  case False
  from assms False obtain r1 w1 where
    1: "emit n p EvCancelled [VNone] (settle_cancelled p w) = Some (r1, w1)"
    by (cases "emit n p EvCancelled [VNone] (settle_cancelled p w)") (auto simp: cancel_pending)
  have "evolves w1 w'"
  proof (cases r1)
    case None
    with assms False 1 show ?thesis by (auto simp: cancel_pending evolves_async)
  next
    case (Some e)
    with assms False 1 show ?thesis by (auto simp: cancel_pending evolves_refl)
  qed
  with evolves_settle_cancelled [OF False] evolves_emit [OF 1] show ?thesis
    by (blast intro: evolves_trans)
qed

lemma evolves_Promise_cancel: "Promise_cancel n p w = Some (r, w') \<Longrightarrow> evolves w w'"
  by (cases "settled (get_promise w p)")
     (auto simp: Promise_cancel_def intro: evolves_refl evolves_cancel)

lemma evolves_run_executor: "run_executor n p acts w = Some (r, w') \<Longrightarrow> evolves w w'"
proof (induction acts arbitrary: w)
  case Nil
  then show ?case by (simp add: evolves_refl)
next
  case (Cons a acts)
  show ?case
  proof (cases a)
    case (DoResolve v)
    with Cons.prems obtain r1 w1 where 1: "resolve n p v w = Some (r1, w1)"
      by (cases "resolve n p v w") auto
    note e1 = evolves_resolve [OF 1]
    show ?thesis
    proof (cases r1)
      case None
      with Cons.prems DoResolve 1 have "run_executor n p acts w1 = Some (r, w')" by simp
      from e1 Cons.IH [OF this] show ?thesis by (rule evolves_trans)
    next
      case (Some e)
      with Cons.prems DoResolve 1 have "w' = w1" by simp
      with e1 show ?thesis by simp
    qed
  next
    case (DoReject v)
    with Cons.prems have "run_executor n p acts (reject p v w) = Some (r, w')" by simp
    from evolves_reject Cons.IH [OF this] show ?thesis by (rule evolves_trans)
  next
    case (DoNotify v)
    with Cons.prems have "run_executor n p acts (notify p v w) = Some (r, w')" by simp
    from evolves_notify Cons.IH [OF this] show ?thesis by (rule evolves_trans)
  qed
qed

lemma evolves_allocate: "evolves w (allocate w)"
  by (simp add: evolves_def frozen_def pinv_def new_promise_def allocate_def)

lemma evolves_constructed: "constructed self r w = (h, w') \<Longrightarrow> evolves w w'"
  by (cases r) (auto simp: constructed_def split: if_splits intro: evolves_refl evolves_reject)

lemma Promise_init_NotExecutor:
  "Promise_init n NotExecutor c w = Some (Inl executor_error, allocate w)"
  by (simp add: Promise_init_def)

lemma Promise_init_Executor:
  "Promise_init n (Executor acts final) c w =
     (case run_executor n (next_ref w) acts
             (if isfunction c then on_event (next_ref w) EvCancelled (Tryer c) (allocate w)
              else allocate w) of
        None \<Rightarrow> None
      | Some (r, w') \<Rightarrow>
          Some (constructed (next_ref w) (case r of Some e \<Rightarrow> Some e | None \<Rightarrow> final) w'))"
  by (simp add: Promise_init_def Let_def)

lemma evolves_Promise_init:
  assumes "Promise_init n ex c w = Some (r, w')"
  shows "evolves w w'"
proof (cases ex)
  case NotExecutor
  with assms show ?thesis by (auto simp: Promise_init_NotExecutor evolves_allocate)
next
  case (Executor acts final)
  let ?w2 = "if isfunction c then on_event (next_ref w) EvCancelled (Tryer c) (allocate w)
             else allocate w"
  have 1: "evolves w ?w2"
    by (auto intro: evolves_allocate evolves_trans [OF evolves_allocate evolves_on_event])
  from assms Executor obtain r2 w2 where 2: "run_executor n (next_ref w) acts ?w2 = Some (r2, w2)"
    and 3: "constructed (next_ref w) (case r2 of Some e \<Rightarrow> Some e | None \<Rightarrow> final) w2 = (r, w')"
    by (cases "run_executor n (next_ref w) acts ?w2") (auto simp: Promise_init_Executor)
  from 1 evolves_run_executor [OF 2] evolves_constructed [OF 3] show ?thesis
    by (blast intro: evolves_trans)
qed

lemma Promise_init_empty:
  "Promise_init n empty_function NotFn w = Some (Inr (next_ref w), allocate w)"
  by (simp add: empty_function_def Promise_init_Executor isfunction_def constructed_def)

lemma Promise_then_eq:
  "Promise_then n self done fail prog w =
     Some (Inr (next_ref w),
           on_event self EvNotified (OnProgress (next_ref w) prog)
             (then_reactions self (next_ref w) done fail (allocate w)))"
  by (simp add: Promise_then_def Promise_init_empty)

lemma evolves_then_reactions: "evolves w (then_reactions self tp done fail w)"
proof (cases "settled (get_promise w self)")
  case True
  then show ?thesis
    by (auto simp: then_reactions_def Let_def
          intro: evolves_refl evolves_async evolves_trans [OF evolves_async evolves_async])
next
  case False
  then show ?thesis
    by (simp add: then_reactions_def evolves_trans [OF evolves_on_event evolves_on_event])
qed

lemma evolves_Promise_then:
  "Promise_then n self done fail prog w = Some (r, w') \<Longrightarrow> evolves w w'"
  unfolding Promise_then_eq
  by (auto intro: evolves_trans [OF evolves_allocate evolves_trans [OF evolves_then_reactions evolves_on_event]])

lemma evolves_dequeue: "evolves w (w\<lparr>queue := ts\<rparr>)"
  by (simp add: evolves_def frozen_def)

lemma evolves_run_task: "run_task n t w = Some (r, w') \<Longrightarrow> evolves w w'"
  by (cases t)
     (auto simp: run_task_def
        intro: evolves_emit evolves_invoke_callback evolves_on_done evolves_on_fail evolves_notify)

lemma evolves_step: "step n w = Some (r, w') \<Longrightarrow> evolves w w'"
  by (cases "queue w")
     (auto simp: step_def intro: evolves_refl evolves_trans [OF evolves_dequeue evolves_run_task])

lemma evolves_run: "run n k w = Some w' \<Longrightarrow> evolves w w'"
proof (induction k arbitrary: w)
  case 0
  then show ?case by (simp add: evolves_refl)
next
  case (Suc k)
  then obtain r w1 where 1: "step n w = Some (r, w1)" and 2: "run n k w1 = Some w'"
    by (cases "step n w") auto
  from evolves_step [OF 1] Suc.IH [OF 2] show ?case by (rule evolves_trans)
qed

section \<open>The claims\<close>

subsection \<open>Settling once\<close>

lemma evolves_settled:
  "evolves w w' \<Longrightarrow> p < next_ref w \<Longrightarrow> settled (get_promise w p) \<Longrightarrow>
   settled (get_promise w' p) \<and> state_of (get_promise w' p) = state_of (get_promise w p)"
  by (simp add: evolves_def frozen_def get_promise_def state_of_def)

lemma evolves_next_ref: "evolves w w' \<Longrightarrow> p < next_ref w \<Longrightarrow> p < next_ref w'"
  by (simp add: evolves_def)

lemma settle_settled: "settled (get_promise w p) \<Longrightarrow> settle n p op w = Some (None, w)"
  by (cases op) (simp_all add: settle_def fulfill_def reject_def cancel_settled)

lemma settle_all_settled: "settled (get_promise w p) \<Longrightarrow> settle_all n p ops w = Some w"
  by (induction ops) (simp_all add: settle_settled)

lemma state_after_fulfill:
  "\<not> settled (get_promise w p) \<Longrightarrow>
   settled (get_promise (fulfill p v w) p) \<and> state_of (get_promise (fulfill p v w) p) = Fulfilled v"
  by (simp add: fulfill_def async_def set_promise_def get_promise_def state_of_def)

lemma state_after_reject:
  "\<not> settled (get_promise w p) \<Longrightarrow> pinv (get_promise w p) \<Longrightarrow>
   settled (get_promise (reject p v w) p) \<and> state_of (get_promise (reject p v w) p) = Rejected v"
  by (simp add: reject_def async_def set_promise_def get_promise_def state_of_def pinv_def)

lemma state_after_settle_cancelled:
  "\<not> settled (get_promise w p) \<Longrightarrow> pinv (get_promise w p) \<Longrightarrow>
   settled (get_promise (settle_cancelled p w) p) \<and>
   state_of (get_promise (settle_cancelled p w) p) = Rejected cancelled_reason \<and>
   next_ref (settle_cancelled p w) = next_ref w"
  by (simp add: settle_cancelled_def set_promise_def get_promise_def state_of_def pinv_def)

lemma state_after_async: "get_promise (async t w) p = get_promise w p"
  by (simp add: async_def get_promise_def)

lemma state_after_cancel:
  assumes "p < next_ref w" and "pinv (get_promise w p)" and "\<not> settled (get_promise w p)"
    and "cancel n p w = Some (r, w1)"
  shows "settled (get_promise w1 p) \<and> state_of (get_promise w1 p) = Rejected cancelled_reason"
proof -
  let ?w0 = "settle_cancelled p w"
  note s = state_after_settle_cancelled [OF assms(3) assms(2)]
  from assms(3,4) obtain r1 w2 where 1: "emit n p EvCancelled [VNone] ?w0 = Some (r1, w2)"
    by (cases "emit n p EvCancelled [VNone] ?w0") (auto simp: cancel_pending)
  from s assms(1) have "p < next_ref ?w0" by simp
  from evolves_settled [OF evolves_emit [OF 1] this] s
  have 2: "settled (get_promise w2 p) \<and> state_of (get_promise w2 p) = Rejected cancelled_reason"
    by simp
  show ?thesis
  proof (cases r1)
    case None
    with assms(3,4) 1 have "w1 = async (EmitTask p EvRejected cancelled_reason) w2"
      by (simp add: cancel_pending)
    with 2 show ?thesis by (simp add: state_after_async)
  next
    case (Some e)
    with assms(3,4) 1 have "w1 = w2" by (simp add: cancel_pending)
    with 2 show ?thesis by simp
  qed
qed

lemma state_after_settle:
  assumes "p < next_ref w" and "pinv (get_promise w p)" and "\<not> settled (get_promise w p)"
    and "settle n p op w = Some (r, w1)"
  shows "settled (get_promise w1 p) \<and> state_of (get_promise w1 p) = first_outcome op"
proof (cases op)
  case (Fulfill v)
  with assms(4) state_after_fulfill [OF assms(3), of v] show ?thesis
    by (auto simp: settle_def first_outcome_def)
next
  case (Reject v)
  with assms(4) state_after_reject [OF assms(3) assms(2), of v] show ?thesis
    by (auto simp: settle_def first_outcome_def)
next
  case Cancel
  with assms(4) have "cancel n p w = Some (r, w1)" by (simp add: settle_def)
  from state_after_cancel [OF assms(1-3) this] Cancel show ?thesis
    by (simp add: first_outcome_def)
qed

lemma apply_listener_fuel_free: "fuel_free l \<Longrightarrow> apply_listener n l args w \<noteq> None"
proof (cases l)
  case (Tryer c)
  then show ?thesis by (cases args) (simp_all add: apply_listener_def)
next
  case (OnCancel v)
  then show ?thesis by (cases args) (simp_all add: apply_listener_def)
next
  case (OnProgress d cb)
  then show ?thesis by (cases args; cases "tl args") (simp_all add: apply_listener_def)
next
  case (Raw name f)
  then show ?thesis by (cases "f args") (simp_all add: apply_listener_def)
qed (simp_all add: fuel_free_def)

lemma emit_list_fuel_free: "list_all fuel_free ls \<Longrightarrow> emit_list n ls args w \<noteq> None"
proof (induction ls arbitrary: w)
  case Nil
  then show ?case by simp
next
  case (Cons l ls)
  from Cons.prems have "fuel_free l" by simp
  from apply_listener_fuel_free [OF this, of n args w]
  obtain r w1 where 1: "apply_listener n l args w = Some (r, w1)" by auto
  from Cons.prems have "list_all fuel_free ls" by simp
  from Cons.IH [OF this, of w1] 1 show ?case by (cases r) auto
qed

lemma emit_fuel_free:
  "list_all fuel_free (listeners_of (get_promise w p) t) \<Longrightarrow> emit n p t args w \<noteq> None"
proof (cases "events (get_promise w p) t")
  case None
  then show ?thesis by (simp add: emit_def)
next
  case (Some s)
  assume a: "list_all fuel_free (listeners_of (get_promise w p) t)"
  show ?thesis
  proof (cases s)
    case (Single f)
    with Some a show ?thesis
      by (simp add: emit_def listeners_of_def apply_listener_fuel_free)
  next
    case (Many fs)
    with Some a show ?thesis
      by (simp add: emit_def listeners_of_def emit_list_fuel_free)
  qed
qed

lemma listeners_of_settle_cancelled:
  "listeners_of (get_promise (settle_cancelled p w) p) t = listeners_of (get_promise w p) t"
  by (simp add: settle_cancelled_def set_promise_def get_promise_def listeners_of_def)

lemma cancel_fuel_free:
  assumes "list_all fuel_free (listeners_of (get_promise w p) EvCancelled)"
  shows "cancel n p w \<noteq> None"
proof (cases "settled (get_promise w p)")
  case True
  then show ?thesis by (simp add: cancel_settled)
next
  case False
  from assms have "list_all fuel_free (listeners_of (get_promise (settle_cancelled p w) p) EvCancelled)"
    by (simp add: listeners_of_settle_cancelled)
  from emit_fuel_free [OF this, of n "[VNone]"]
  obtain r w1 where "emit n p EvCancelled [VNone] (settle_cancelled p w) = Some (r, w1)" by auto
  with False show ?thesis by (cases r) (simp_all add: cancel_pending)
qed

lemma settle_fuel_free:
  "list_all fuel_free (listeners_of (get_promise w p) EvCancelled) \<Longrightarrow> settle n p op w \<noteq> None"
  by (cases op) (simp_all add: settle_def cancel_fuel_free)

text \<open>
  C1. A pending promise is settled by the first of a sequence of \<^verbatim>\<open>_fulfill\<close>,
  \<^verbatim>\<open>_reject\<close> and \<^verbatim>\<open>_cancel\<close> calls, with the outcome of that call; every later call
  returns without raising and leaves the whole world, hence the state and the outcome
  of the promise, as it was. The first call returns whenever the listeners of the
  cancelled event spend no fuel (the listeners the module registers for it do not).
\<close>

theorem settle_once:
  assumes "p < next_ref w" and "pinv (get_promise w p)" and "\<not> settled (get_promise w p)"
  shows "(\<forall>r w1. settle n p op w = Some (r, w1) \<longrightarrow>
            settled (get_promise w1 p) \<and> state_of (get_promise w1 p) = first_outcome op \<and>
            (\<forall>m op'. settle m p op' w1 = Some (None, w1)) \<and>
            (\<forall>m ops. settle_all m p ops w1 = Some w1) \<and>
            (\<forall>ops. settle_all n p (op # ops) w = Some w1)) \<and>
         (list_all fuel_free (listeners_of (get_promise w p) EvCancelled) \<longrightarrow>
            settle n p op w \<noteq> None)"
  using state_after_settle [OF assms] settle_settled settle_all_settled settle_fuel_free
  by auto


lemma world1_pending:
  "0 < next_ref world1 \<and> pinv (get_promise world1 0) \<and> \<not> settled (get_promise world1 0)"
  by (simp add: world1_def world0_def allocate_def get_promise_def new_promise_def pinv_def)

theorem settle_once_witness:
  "settle 0 0 (Reject (VInt 7)) world1 = Some (None, reject 0 (VInt 7) world1) \<and>
   state_of (get_promise (reject 0 (VInt 7) world1) 0) = Rejected (VInt 7) \<and>
   settle_all 0 0 [Fulfill (VInt 1), Cancel, Reject VNone] (reject 0 (VInt 7) world1) =
     Some (reject 0 (VInt 7) world1)"
proof -
  have 1: "settle 0 0 (Reject (VInt 7)) world1 = Some (None, reject 0 (VInt 7) world1)"
    by (simp add: settle_def)
  from world1_pending have "0 < next_ref world1" and "pinv (get_promise world1 0)"
    and "\<not> settled (get_promise world1 0)" by simp_all
  from settle_once [OF this, of 0 "Reject (VInt 7)"] 1 show ?thesis
    by (simp add: first_outcome_def)
qed
subsection \<open>The flags of a promise\<close>

lemma evolves_winv: "evolves w w' \<Longrightarrow> winv w \<Longrightarrow> winv w'"
  by (simp add: evolves_def winv_def get_promise_def)

lemma winv_world0: "winv world0"
  by (simp add: winv_def world0_def get_promise_def new_promise_def pinv_def)

lemma then_reactions_settled:
  "settled (get_promise w self) \<Longrightarrow> pinv (get_promise w self) \<Longrightarrow>
   then_reactions self d done fail w = async (late_reaction (get_promise w self) self d done fail) w"
  by (auto simp: then_reactions_def late_reaction_def pinv_def)

text \<open>
  C10. In every promise the flag \<^verbatim>\<open>_settled\<close> is the disjunction of \<^verbatim>\<open>_fulfilled\<close> and
  \<^verbatim>\<open>_rejected\<close>, which are never both set: this holds of the empty world and every
  operation that returns (construction, fulfill, reject, notify, cancel, resolution, then,
  a turn of the scheduler) keeps it; so on a settled promise exactly one of the two tests
  of \<^verbatim>\<open>then\<close> succeeds and one reaction is scheduled.
\<close>

theorem flags_invariant:
  assumes "winv w"
  shows "winv (fulfill p v w) \<and> winv (reject p v w) \<and> winv (notify p v w) \<and>
         (\<forall>r w'. cancel n p w = Some (r, w') \<longrightarrow> winv w') \<and>
         (\<forall>r w'. Promise_cancel n p w = Some (r, w') \<longrightarrow> winv w') \<and>
         (\<forall>r w'. resolve n p v w = Some (r, w') \<longrightarrow> winv w') \<and>
         (\<forall>h w'. handle_thenable n p v w = Some (h, w') \<longrightarrow> winv w') \<and>
         (\<forall>r w'. Promise_init n ex c w = Some (r, w') \<longrightarrow> winv w') \<and>
         (\<forall>r w'. Promise_then n p done fail prog w = Some (r, w') \<longrightarrow> winv w') \<and>
         (\<forall>r w'. step n w = Some (r, w') \<longrightarrow> winv w') \<and>
         (\<forall>k w'. run n k w = Some w' \<longrightarrow> winv w') \<and>
         (settled (get_promise w p) = (fulfilled (get_promise w p) \<or> rejected (get_promise w p))) \<and>
         \<not> (fulfilled (get_promise w p) \<and> rejected (get_promise w p)) \<and>
         (settled (get_promise w p) \<longrightarrow>
            then_reactions p d done fail w =
              async (late_reaction (get_promise w p) p d done fail) w)"
proof -
  note keep = evolves_winv [OF _ assms]
  have "pinv (get_promise w p)" using assms by (simp add: winv_def)
  then show ?thesis
    using keep [OF evolves_fulfill] keep [OF evolves_reject] keep [OF evolves_notify]
      keep [OF evolves_cancel] keep [OF evolves_Promise_cancel] keep [OF evolves_resolve]
      keep [OF evolves_handle_thenable] keep [OF evolves_Promise_init]
      keep [OF evolves_Promise_then] keep [OF evolves_step] keep [OF evolves_run]
      then_reactions_settled [of w p d "done" fail]
    by (simp add: pinv_def)
qed

theorem flags_invariant_witness:
  "winv world0 \<and> winv (fulfill 0 (VInt 3) world1) \<and>
   then_reactions 0 1 NotFn NotFn (fulfill 0 (VInt 3) world1) =
     async (LateDone 0 1 NotFn) (fulfill 0 (VInt 3) world1)"
proof -
  have 0: "Promise_init 0 empty_function NotFn world0 = Some (Inr 0, world1)"
    by (simp add: Promise_init_empty world1_def world0_def)
  from flags_invariant [OF winv_world0, of 0 VNone 0 empty_function NotFn] 0
  have 1: "winv world1" by blast
  have 2: "settled (get_promise (fulfill 0 (VInt 3) world1) 0)"
    and 3: "fulfilled (get_promise (fulfill 0 (VInt 3) world1) 0)"
    using world1_pending state_after_fulfill [of world1 0 "VInt 3"]
    by (simp_all add: fulfill_def async_def set_promise_def get_promise_def)
  from flags_invariant [OF 1, of 0 "VInt 3"] have 4: "winv (fulfill 0 (VInt 3) world1)" by blast
  from flags_invariant [OF 4, of 0 VNone 0 empty_function NotFn NotFn NotFn NotFn 1] 2 3
  have "then_reactions 0 1 NotFn NotFn (fulfill 0 (VInt 3) world1) =
     async (LateDone 0 1 NotFn) (fulfill 0 (VInt 3) world1)"
    by (simp add: late_reaction_def)
  with winv_world0 4 show ?thesis by simp
qed
subsection \<open>Self-resolution\<close>

lemma resolve_unfold: "resolve n = resolve_body (nested n)"
  by (cases n) (simp_all add: nested_def)

lemma resolve_self: "resolve n p (VPromise p) w = Some (None, fulfill p (VPromise p) w)"
  by (simp add: resolve_unfold [of n] resolve_body_def)

lemma handle_thenable_self:
  "handle_thenable n p (VPromise p) w = Some (Inr True, reject p (VExn self_error) w)"
  by (simp add: handle_thenable_def handle_thenable_body_def adoption_end_def self_error_def
        is_Exception_def)

lemma fulfill_keeps:
  "events (get_promise (fulfill p v w) q) = events (get_promise w q) \<and>
   cells (fulfill p v w) = cells w \<and> next_cell (fulfill p v w) = next_cell w \<and>
   trace (fulfill p v w) = trace w"
  by (simp add: fulfill_def async_def set_promise_def get_promise_def Let_def)

lemma get_promise_record_call: "get_promise (record_call e w) p = get_promise w p"
  by (simp add: record_call_def get_promise_def)

text \<open>
  C6. Resolving a promise with itself fulfils it with itself: for every fuel
  \<^verbatim>\<open>_resolve\<close> returns what \<^verbatim>\<open>_fulfill\<close> returns, so no listener is registered, no cell is
  allocated and no foreign \<^verbatim>\<open>then\<close> is called. A callback that returns the derived promise
  it is invoked for has that promise rejected with the \<^verbatim>\<open>TypeError\<close> of
  \<^verbatim>\<open>_handle_thenable\<close>.
\<close>

theorem self_resolution:
  assumes "\<not> settled (get_promise w p)" and "pinv (get_promise w p)" and "f [x] = Inr (VPromise p)"
  shows "resolve n p (VPromise p) w = Some (None, fulfill p (VPromise p) w) \<and>
         state_of (get_promise (fulfill p (VPromise p) w) p) = Fulfilled (VPromise p) \<and>
         events (get_promise (fulfill p (VPromise p) w) p) = events (get_promise w p) \<and>
         next_cell (fulfill p (VPromise p) w) = next_cell w \<and>
         trace (fulfill p (VPromise p) w) = trace w \<and>
         invoke_callback n r p (Fn name f) x w =
           Some (None, reject p (VExn self_error) (record_call (Called name [x]) w)) \<and>
         state_of (get_promise (reject p (VExn self_error) (record_call (Called name [x]) w)) p) =
           Rejected (VExn (TypeError ''A promise callback cannot return that same promise.''))"
proof -
  let ?w1 = "record_call (Called name [x]) w"
  have 1: "\<not> settled (get_promise ?w1 p)" and 2: "pinv (get_promise ?w1 p)"
    using assms by (simp_all add: get_promise_record_call)
  have "invoke_callback n r p (Fn name f) x w = Some (None, reject p (VExn self_error) ?w1)"
    using assms by (simp add: invoke_callback_returns settle_derived_def handle_thenable_self)
  with state_after_fulfill [OF assms(1), of "VPromise p"] state_after_reject [OF 1 2, of "VExn self_error"]
  show ?thesis
    by (simp add: resolve_self fulfill_keeps self_error_def)
qed

theorem self_resolution_witness:
  "state_of (get_promise (fulfill 0 (VPromise 0) world1) 0) = Fulfilled (VPromise 0) \<and>
   resolve 5 0 (VPromise 0) world1 = Some (None, fulfill 0 (VPromise 0) world1) \<and>
   invoke_callback 0 ResolveOp 0 (Fn ''f'' returns_own_promise) (VInt 1) world1 =
     Some (None, reject 0 (VExn self_error) (record_call (Called ''f'' [VInt 1]) world1))"
proof -
  from world1_pending have "\<not> settled (get_promise world1 0)" and "pinv (get_promise world1 0)"
    by simp_all
  moreover have "returns_own_promise [VInt 1] = Inr (VPromise 0)" by (simp add: returns_own_promise_def)
  ultimately show ?thesis
    using self_resolution [of world1 0 returns_own_promise "VInt 1" 5 ResolveOp "''f''"]
      self_resolution [of world1 0 returns_own_promise "VInt 1" 0 ResolveOp "''f''"]
    by simp
qed


subsection \<open>Exceptions of progress handlers\<close>

lemma invoke_notify_callback_raises:
  "f [x] = Inl e \<Longrightarrow>
   invoke_notify_callback d (Fn name f) x w =
     (if settled (get_promise w d) then (None, w)
      else (uncaught e, record_call (Called name [x]) w))"
  by (simp add: invoke_notify_callback_def)

lemmas eval_defs =
  world1_def world0_def allocate_def new_promise_def plain_obj_def get_promise_def
  set_promise_def record_call_def on_event_def async_def fulfill_def reject_def notify_def
  then_reactions_def Let_def

text \<open>
  C7, as the code has it. When the progress callback raises an \<^verbatim>\<open>Exception\<close>,
  \<^verbatim>\<open>_invoke_notify_callback\<close> returns without raising and changes nothing but the trace
  of calls, which records the call of the callback when the derived promise is pending:
  no promise changes (the derived promise is neither fulfilled nor rejected) and
  nothing is queued (it is not notified); the listener returns and the emission goes on
  with the remaining listeners.
\<close>

theorem progress_error_swallowed:
  assumes "f [x] = Inl e" and "is_Exception e"
  shows "fst (invoke_notify_callback d (Fn name f) x w) = None \<and>
         promises (snd (invoke_notify_callback d (Fn name f) x w)) = promises w \<and>
         queue (snd (invoke_notify_callback d (Fn name f) x w)) = queue w \<and>
         trace (snd (invoke_notify_callback d (Fn name f) x w)) =
           (if settled (get_promise w d) then trace w else trace w @ [Called name [x]]) \<and>
         apply_listener n (OnProgress d (Fn name f)) [x] w =
           Some (None, snd (invoke_notify_callback d (Fn name f) x w)) \<and>
         emit_list n (OnProgress d (Fn name f) # ls) [x] w =
           emit_list n ls [x] (snd (invoke_notify_callback d (Fn name f) x w))"
  using assms
  by (simp add: invoke_notify_callback_raises apply_listener_def record_call_def uncaught_def)

theorem progress_error_swallowed_witness:
  "emit_list 0 [OnProgress 0 (Fn ''boom'' boom), OnProgress 0 NotFn] [VInt 1] world1 =
     Some (None, notify 0 (VInt 1) (record_call (Called ''boom'' [VInt 1]) world1))"
proof -
  have b: "boom [VInt 1] = Inl (UserError ''boom'')" and e: "is_Exception (UserError ''boom'')"
    by (simp_all add: boom_def is_Exception_def)
  have s: "\<not> settled (get_promise (record_call (Called ''boom'' [VInt 1]) world1) 0)"
    using world1_pending by (simp add: get_promise_record_call)
  from world1_pending b e s
    progress_error_swallowed [where f = boom and x = "VInt 1" and e = "UserError ''boom''"
      and d = 0 and name = "''boom''" and w = world1 and n = 0 and ls = "[OnProgress 0 NotFn]"]
  show ?thesis
    by (simp add: invoke_notify_callback_raises apply_listener_def invoke_notify_callback_def
          uncaught_def)
qed

text \<open>
  Against C7 as stated: promise 0 has two progress handlers; the first raises
  \<^verbatim>\<open>KeyboardInterrupt\<close>, which the clause \<^verbatim>\<open>except Exception\<close> does not catch. When the
  scheduler delivers a notification, the exception leaves the emission and the second
  handler is not called.
\<close>

theorem progress_interrupt_propagates:
  "Promise_progress 0 0 (Fn ''interrupts'' interrupts) world1 = Some (Inr 1, one_progress_handler) \<and>
   Promise_progress 0 0 (Fn ''seen'' ok) one_progress_handler = Some (Inr 2, two_progress_handlers) \<and>
   listeners_of (get_promise two_progress_handlers 0) EvNotified =
     [OnProgress 1 (Fn ''interrupts'' interrupts), OnProgress 2 (Fn ''seen'' ok)] \<and>
   queue (notify 0 (VInt 1) two_progress_handlers) = [EmitTask 0 EvNotified (VInt 1)] \<and>
   raised_of (step 0 (notify 0 (VInt 1) two_progress_handlers)) = Some KeyboardInterrupt \<and>
   trace_of (step 0 (notify 0 (VInt 1) two_progress_handlers)) = [Called ''interrupts'' [VInt 1]]"
proof -
  have n1: "next_ref world1 = 1" and n2: "next_ref one_progress_handler = 2"
    by (simp_all add: one_progress_handler_def eval_defs)
  have p1: "Promise_progress 0 0 (Fn ''interrupts'' interrupts) world1 = Some (Inr 1, one_progress_handler)"
    by (simp add: Promise_progress_def Promise_then_eq n1 one_progress_handler_def)
  have p2: "Promise_progress 0 0 (Fn ''seen'' ok) one_progress_handler = Some (Inr 2, two_progress_handlers)"
    by (simp add: Promise_progress_def Promise_then_eq n2 two_progress_handlers_def)
  let ?w = "notify 0 (VInt 1) two_progress_handlers"
  have e: "events (promises two_progress_handlers 0) EvNotified =
             Some (Many [OnProgress 1 (Fn ''interrupts'' interrupts), OnProgress 2 (Fn ''seen'' ok)])"
    and s: "\<not> settled (promises two_progress_handlers 0)"
      "\<not> settled (promises two_progress_handlers 1)"
    and q: "queue two_progress_handlers = []" and t: "trace two_progress_handlers = []"
    by (simp_all add: two_progress_handlers_def one_progress_handler_def eval_defs)
  have w: "?w = two_progress_handlers\<lparr>queue := [EmitTask 0 EvNotified (VInt 1)]\<rparr>"
    using s q by (simp add: notify_def async_def get_promise_def)
  have "step 0 ?w =
          Some (Some KeyboardInterrupt,
                record_call (Called ''interrupts'' [VInt 1]) (two_progress_handlers\<lparr>queue := []\<rparr>))"
    unfolding w using e s
    by (simp add: step_def run_task_def emit_def get_promise_def apply_listener_def
          invoke_notify_callback_def interrupts_def uncaught_def is_Exception_def)
  with p1 p2 e t w show ?thesis
    by (simp add: listeners_of_def get_promise_def raised_of_def trace_of_def record_call_def)
qed

subsection \<open>Notification after settlement\<close>

lemma world1_simps:
  "promises world1 = (\<lambda>p. new_promise)" "next_ref world1 = 1" "queue world1 = []"
  "trace world1 = []" "objs world1 = (\<lambda>k. plain_obj)" "next_cell world1 = 0"
  by (auto simp: world1_def world0_def allocate_def)

lemma notify_settled: "settled (get_promise w p) \<Longrightarrow> notify p v w = w"
  by (simp add: notify_def)

lemma notify_pending:
  "\<not> settled (get_promise w p) \<Longrightarrow> notify p v w = async (EmitTask p EvNotified v) w"
  by (simp add: notify_def)

text \<open>
  C9, as the code has it. \<^verbatim>\<open>_notify\<close> on a settled promise returns the world as it
  was: nothing is queued and no listener is called. On a pending promise it only queues
  the emission; the queued emission calls the listeners of the notified event when the
  scheduler runs it, without looking at the state of the promise.
\<close>

theorem notify_checks_at_call:
  "(settled (get_promise w p) \<longrightarrow> notify p v w = w) \<and>
   (\<not> settled (get_promise w p) \<longrightarrow>
      notify p v w = async (EmitTask p EvNotified v) w \<and>
      queue (notify p v w) = queue w @ [EmitTask p EvNotified v] \<and>
      promises (notify p v w) = promises w \<and> trace (notify p v w) = trace w) \<and>
   run_task n (EmitTask p EvNotified v) w' = emit n p EvNotified [v] w'"
  by (simp add: notify_settled notify_pending async_def run_task_def)

theorem notify_checks_at_call_witness:
  "notify 0 (VInt 1) (fulfill 0 (VInt 2) world1) = fulfill 0 (VInt 2) world1 \<and>
   queue (notify 0 (VInt 1) world1) = [EmitTask 0 EvNotified (VInt 1)]"
proof -
  have 1: "settled (get_promise (fulfill 0 (VInt 2) world1) 0)"
    using world1_pending state_after_fulfill [of world1 0 "VInt 2"] by simp
  have 2: "\<not> settled (get_promise world1 0)" using world1_pending by simp
  from notify_checks_at_call [of "fulfill 0 (VInt 2) world1" 0 "VInt 1" 0 world0] 1
    notify_checks_at_call [of world1 0 "VInt 1" 0 world0] 2
  show ?thesis by (simp add: world1_simps async_def)
qed

text \<open>
  Against C9 as stated: promise 0 has a progress handler, is notified while pending and is
  fulfilled before the scheduler runs. In the next turn the promise is settled and its
  notified event is emitted all the same: the handler is called with the notification.
\<close>

theorem notified_after_settlement:
  "Promise_progress 0 0 (Fn ''seen'' ok) world1 =
     Some (Inr 1, on_event 0 EvNotified (OnProgress 1 (Fn ''seen'' ok))
                    (then_reactions 0 1 NotFn NotFn (allocate world1))) \<and>
   settled (get_promise notified_then_fulfilled 0) \<and>
   trace notified_then_fulfilled = [] \<and>
   raised_of (step 0 notified_then_fulfilled) = None \<and>
   trace_of (step 0 notified_then_fulfilled) = [Called ''seen'' [VInt 1]]"
proof -
  have p: "Promise_progress 0 0 (Fn ''seen'' ok) world1 =
     Some (Inr 1, on_event 0 EvNotified (OnProgress 1 (Fn ''seen'' ok))
                    (then_reactions 0 1 NotFn NotFn (allocate world1)))"
    by (simp add: Promise_progress_def Promise_then_eq world1_simps)
  have q: "queue notified_then_fulfilled =
             [EmitTask 0 EvNotified (VInt 1), EmitTask 0 EvResolved (VInt 2)]"
    and e: "events (promises notified_then_fulfilled 0) EvNotified =
             Some (Single (OnProgress 1 (Fn ''seen'' ok)))"
    and d: "\<not> settled (promises notified_then_fulfilled 1)"
    and f: "settled (promises notified_then_fulfilled 0)"
    and t: "trace notified_then_fulfilled = []"
    by (simp_all add: notified_then_fulfilled_def eval_defs)
  have s: "step 0 notified_then_fulfilled =
             Some (None, notify 1 VNone (record_call (Called ''seen'' [VInt 1])
                       (notified_then_fulfilled\<lparr>queue := [EmitTask 0 EvResolved (VInt 2)]\<rparr>)))"
    using q e d
    by (simp add: step_def run_task_def emit_def get_promise_def apply_listener_def
          invoke_notify_callback_def ok_def record_call_def)
  have "trace_of (step 0 notified_then_fulfilled) = [Called ''seen'' [VInt 1]]"
    using d t unfolding s
    by (simp add: trace_of_def notify_def async_def record_call_def get_promise_def)
  with p f t s show ?thesis
    by (simp add: raised_of_def get_promise_def)
qed


subsection \<open>Cancellation and rejection pass-through at failing inputs\<close>

text \<open>
  C4, at the failing input \<^verbatim>\<open>Promise(_empty_function, canceller).cancel()\<close>: the
  promise is settled as rejected with \<^verbatim>\<open>CancelException("Cancelled")\<close>, but the call of
  \<^verbatim>\<open>tryer\<close> with the event raises \<^verbatim>\<open>TypeError\<close> out of \<^verbatim>\<open>cancel()\<close>; the canceller is
  not called and the emission of the rejected event is never scheduled.
\<close>

theorem cancel_with_canceller_raises:
  "Promise_init 0 empty_function (Fn ''canceller'' ok) world0 = Some (Inr 0, with_canceller) \<and>
   state_of (get_promise with_canceller 0) = Pending \<and>
   raised_of (Promise_cancel 0 0 with_canceller) =
     Some (TypeError ''tryer() takes 0 positional arguments but 1 was given'') \<and>
   trace_of (Promise_cancel 0 0 with_canceller) = [] \<and>
   queue_of (Promise_cancel 0 0 with_canceller) = [] \<and>
   state_in (Promise_cancel 0 0 with_canceller) 0 = Rejected (VExn (CancelException ''Cancelled''))"
proof -
  have i: "Promise_init 0 empty_function (Fn ''canceller'' ok) world0 = Some (Inr 0, with_canceller)"
    by (simp add: empty_function_def Promise_init_Executor isfunction_def with_canceller_def
          world0_def constructed_def)
  have e: "events (promises with_canceller 0) EvCancelled = Some (Single (Tryer (Fn ''canceller'' ok)))"
    and s: "\<not> settled (promises with_canceller 0)"
    and f: "\<not> fulfilled (promises with_canceller 0)" "\<not> rejected (promises with_canceller 0)"
    and t: "trace with_canceller = []" and q: "queue with_canceller = []"
    by (simp_all add: with_canceller_def eval_defs)
  have c: "Promise_cancel 0 0 with_canceller =
             Some (Some (takes_no_argument ''tryer''), settle_cancelled 0 with_canceller)"
    using e s
    by (simp add: Promise_cancel_def cancel_pending get_promise_def emit_def apply_listener_def
          settle_cancelled_def set_promise_def)
  show ?thesis
    using i f t q unfolding c
    by (simp add: raised_of_def trace_of_def queue_of_def state_in_def state_of_def
          takes_no_argument_def settle_cancelled_def set_promise_def get_promise_def
          cancelled_reason_def)
qed

text \<open>
  C5, at a failing input: promise 0 is rejected with an object whose \<^verbatim>\<open>then\<close> is a function
  that reports 5, and \<^verbatim>\<open>catch()\<close> without a handler is called on it. The reaction hands
  the reason to \<^verbatim>\<open>_handle_thenable\<close>, which adopts it: after two turns of the scheduler
  the derived promise is fulfilled with 5, not rejected with the reason.
\<close>

theorem catch_adopts_thenable_reason:
  "state_of (get_promise rejected_with_thenable 0) = Rejected (VObj 0) \<and>
   Promise_catch 1 0 NotFn rejected_with_thenable = Some (Inr 1, caught) \<and>
   queue caught = [EmitTask 0 EvRejected (VObj 0), LateFail 0 1 NotFn] \<and>
   state_after (run 1 2 caught) 1 = Fulfilled (VInt 5)"
proof -
  have 1: "state_of (get_promise rejected_with_thenable 0) = Rejected (VObj 0)"
    and 2: "next_ref rejected_with_thenable = 1"
    by (simp_all add: rejected_with_thenable_def adopting_def state_of_def eval_defs)
  have 3: "Promise_catch 1 0 NotFn rejected_with_thenable = Some (Inr 1, caught)"
    by (simp add: Promise_catch_def Promise_then_eq 2 caught_def)
  have q: "queue caught = [EmitTask 0 EvRejected (VObj 0), LateFail 0 1 NotFn]"
    and e: "events (promises caught 0) EvRejected = None"
    and r: "rejected_reason (promises caught 0) = VObj 0"
    and s: "\<not> settled (promises caught 1)" "\<not> fulfilled (promises caught 1)"
    and o: "objs caught 0 = thenable5" and c: "\<not> cells caught (next_cell caught)"
    by (simp_all add: caught_def rejected_with_thenable_def adopting_def eval_defs)
  let ?w1 = "caught\<lparr>queue := [LateFail 0 (Suc 0) NotFn]\<rparr>"
  have s1: "step (Suc 0) caught = Some (None, ?w1)"
    using q e by (simp add: step_def run_task_def emit_def get_promise_def)
  let ?w2 = "caught\<lparr>queue := []\<rparr>"
  let ?w3 = "record_call (ThenCalled (VObj 0)) (on_event 1 EvCancelled (OnCancel (VObj 0)) (new_cell ?w2))"
  have h: "handle_thenable 1 1 (VObj 0) ?w2 =
             Some (Inr True, fulfill 1 (VInt 5) (set_cell (next_cell caught) ?w3))"
    using o c
    by (simp add: handle_thenable_def nested_def handle_thenable_body_def get_then_def
          thenable5_def on_done_body_def resolve_body_def adoption_end_def new_cell_def
          record_call_def on_event_def Let_def set_promise_def get_promise_def)
  have s2: "step (Suc 0) ?w1 = Some (None, fulfill 1 (VInt 5) (set_cell (next_cell caught) ?w3))"
    using r s h
    by (simp add: step_def run_task_def get_promise_def invoke_callback_NotFn settle_derived_def)
  have "settled (get_promise ?w3 1) = settled (get_promise caught 1)"
    by (simp add: new_cell_def record_call_def on_event_def Let_def set_promise_def get_promise_def)
  with s have "\<not> settled (get_promise (set_cell (next_cell caught) ?w3) 1)"
    by (simp add: set_cell_def get_promise_def)
  from state_after_fulfill [OF this, of "VInt 5"] 1 3 q show ?thesis
    by (simp add: numeral_2_eq_2 s1 s2 state_after_def)
qed

subsection \<open>Exceptions of listeners\<close>

lemma get_then_simps:
  "get_then w VNone = NoAttr" "get_then w (VInt i) = NoAttr" "get_then w (VStr s) = NoAttr"
  "get_then w (VExn e) = NoAttr" "get_then w (VPromise q) = NonFunction"
  "get_then w (VObj k) = then_of (objs w k)"
  by (simp_all add: get_then_def)

lemma handle_thenable_body_plain:
  "plain w x \<Longrightarrow> x \<noteq> VPromise p \<Longrightarrow> handle_thenable_body rs p x w = Some (Inr False, w)"
  by (cases "get_then w x") (simp_all add: handle_thenable_body_def plain_def)

lemma handle_thenable_plain:
  "plain w x \<Longrightarrow> x \<noteq> VPromise p \<Longrightarrow> handle_thenable n p x w = Some (Inr False, w)"
  by (simp add: handle_thenable_def handle_thenable_body_plain)

lemma plain_simps:
  "plain w VNone" "plain w (VInt i)" "plain w (VStr s)" "plain w (VExn e)" "plain w (VPromise q)"
  by (simp_all add: plain_def get_then_def)

lemma invoke_callback_catches:
  assumes "f [ev] = Inl ex" and "is_Exception ex"
  shows "invoke_callback n r d (Fn name f) ev w =
           Some (None, if settled (get_promise w d) then w
                       else reject d (VExn ex) (record_call (Called name [ev]) w))"
proof (cases "settled (get_promise w d)")
  case True
  then show ?thesis by (simp add: invoke_callback_settled)
next
  case False
  with assms show ?thesis
    by (simp add: invoke_callback_raises settle_derived_def handle_thenable_plain plain_simps)
qed

lemma emit_list_single: "emit_list n [l] args w = apply_listener n l args w"
proof (cases "apply_listener n l args w")
  case None
  then show ?thesis by simp
next
  case (Some rw)
  then show ?thesis by (cases rw; cases "fst rw") simp_all
qed

lemma emit_as_list: "emit n p t args w = emit_list n (listeners_of (get_promise w p) t) args w"
proof (cases "events (get_promise w p) t")
  case None
  then show ?thesis by (simp add: emit_def listeners_of_def)
next
  case (Some s)
  then show ?thesis
    by (cases s) (simp_all add: emit_def listeners_of_def emit_list_single del: emit_list.simps)
qed

lemma emit_list_append:
  "emit_list n (xs @ ys) args w =
     (case emit_list n xs args w of
        None \<Rightarrow> None
      | Some (r, w') \<Rightarrow>
          (case r of Some e \<Rightarrow> Some (Some e, w') | None \<Rightarrow> emit_list n ys args w'))"
proof (induction xs arbitrary: w)
  case Nil
  show ?case by simp
next
  case (Cons x xs)
  show ?case
  proof (cases "apply_listener n x args w")
    case None
    then show ?thesis by simp
  next
    case (Some rw)
    then show ?thesis using Cons.IH by (cases rw; cases "fst rw") simp_all
  qed
qed

lemma listeners_of_on_event:
  "listeners_of (get_promise (on_event p t l w) p) t = listeners_of (get_promise w p) t @ [l]"
  by (cases "events (get_promise w p) t"; cases "the (events (get_promise w p) t)")
     (simp_all add: on_event_def Let_def set_promise_def get_promise_def listeners_of_def)

text \<open>
  C3, as the code has it. \<^verbatim>\<open>_emit\<close> goes through the listeners that are registered
  when it starts, in the order of their registration (\<^verbatim>\<open>_on\<close> appends), and catches
  nothing: when the listeners before \<open>l\<close> have returned and \<open>l\<close> raises, the emission ends
  in the world that \<open>l\<close> leaves, so the listeners after \<open>l\<close> are not called, and the
  exception reaches the caller of \<^verbatim>\<open>_emit\<close>; when \<open>l\<close> returns, the emission goes on with
  the listeners after it. A listener that \<^verbatim>\<open>then\<close> registers catches an \<^verbatim>\<open>Exception\<close> of
  the user's callback: it returns, having rejected the pending derived promise with the
  exception (or, for a progress callback, having dropped the notification). An
  exception of the callback that is no \<^verbatim>\<open>Exception\<close> leaves the listener.
\<close>

theorem emit_stops_at_raise:
  assumes "listeners_of (get_promise w p) t = pre @ l # post"
    and "emit_list n pre args w = Some (None, w1)"
  shows "(apply_listener n l args w1 = Some (Some e, w2) \<longrightarrow>
            emit n p t args w = Some (Some e, w2)) \<and>
         (apply_listener n l args w1 = Some (None, w2) \<longrightarrow>
            emit n p t args w = emit_list n post args w2) \<and>
         listeners_of (get_promise (on_event p t l' w) p) t =
           listeners_of (get_promise w p) t @ [l'] \<and>
         (f [ev] = Inl ex \<and> is_Exception ex \<longrightarrow>
            apply_listener n (OnDone d (Fn name f)) [ev] w1 =
              Some (None, if settled (get_promise w1 d) then w1
                          else reject d (VExn ex) (record_call (Called name [ev]) w1)) \<and>
            apply_listener n (OnFail d (Fn name f)) [ev] w1 =
              Some (None, if settled (get_promise w1 d) then w1
                          else reject d (VExn ex) (record_call (Called name [ev]) w1)) \<and>
            apply_listener n (OnProgress d (Fn name f)) [ev] w1 =
              Some (None, if settled (get_promise w1 d) then w1
                          else record_call (Called name [ev]) w1)) \<and>
         (f [ev] = Inl ex \<and> \<not> is_Exception ex \<and> \<not> settled (get_promise w1 d) \<longrightarrow>
            apply_listener n (OnDone d (Fn name f)) [ev] w1 =
              Some (Some ex, record_call (Called name [ev]) w1) \<and>
            apply_listener n (OnFail d (Fn name f)) [ev] w1 =
              Some (Some ex, record_call (Called name [ev]) w1) \<and>
            apply_listener n (OnProgress d (Fn name f)) [ev] w1 =
              Some (Some ex, record_call (Called name [ev]) w1))"
proof -
  have a: "emit n p t args w =
           (case apply_listener n l args w1 of
              None \<Rightarrow> None
            | Some (r, w') \<Rightarrow>
                (case r of Some e \<Rightarrow> Some (Some e, w') | None \<Rightarrow> emit_list n post args w'))"
    using assms by (simp add: emit_as_list emit_list_append del: emit_list.simps)
       (simp add: emit_list.simps)
  show ?thesis
    by (simp add: a listeners_of_on_event invoke_callback_catches invoke_callback_uncaught
          invoke_notify_callback_raises apply_listener_def uncaught_def)
qed

theorem emit_stops_at_raise_witness:
  "emit 0 0 EvResolved [VInt 1] then_and_raw =
     Some (None, record_call (Called ''seen'' [VInt 1])
                   (reject 1 (VExn (UserError ''boom''))
                      (record_call (Called ''boom'' [VInt 1]) then_and_raw)))"
proof -
  let ?w1 = "record_call (Called ''boom'' [VInt 1]) then_and_raw"
  have l: "listeners_of (get_promise then_and_raw 0) EvResolved =
             [] @ OnDone 1 (Fn ''boom'' boom) # [Raw ''seen'' ok]"
    and s: "\<not> settled (get_promise then_and_raw 1)"
    by (simp_all add: then_and_raw_def listeners_of_def eval_defs)
  have p: "emit_list 0 [] [VInt 1] then_and_raw = Some (None, then_and_raw)" by simp
  have b: "boom [VInt 1] = Inl (UserError ''boom'')" "is_Exception (UserError ''boom'')"
    by (simp_all add: boom_def is_Exception_def)
  note th = emit_stops_at_raise [OF l p, where f = boom and ev = "VInt 1"
      and ex = "UserError ''boom''" and d = 1 and name = "''boom''"
      and ?w2.0 = "reject 1 (VExn (UserError ''boom'')) ?w1" and e = "UserError ''boom''"
      and l' = "Raw ''seen'' ok"]
  from th b s have 1: "apply_listener 0 (OnDone 1 (Fn ''boom'' boom)) [VInt 1] then_and_raw =
      Some (None, reject 1 (VExn (UserError ''boom'')) ?w1)"
    by simp
  from th 1 have "emit 0 0 EvResolved [VInt 1] then_and_raw =
      emit_list 0 [Raw ''seen'' ok] [VInt 1] (reject 1 (VExn (UserError ''boom'')) ?w1)"
    by blast
  then show ?thesis by (simp add: apply_listener_def ok_def)
qed

text \<open>
  Against C3 as stated: promise 0 has two listeners for the resolved event; the first
  raises. The emission calls the first only and hands its exception to the caller.
\<close>

theorem emit_propagates:
  "listeners_of (get_promise two_listeners 0) EvResolved =
     [Raw ''boom'' boom, Raw ''seen'' ok] \<and>
   raised_of (emit 0 0 EvResolved [VInt 1] two_listeners) = Some (UserError ''boom'') \<and>
   trace_of (emit 0 0 EvResolved [VInt 1] two_listeners) = [Called ''boom'' [VInt 1]]"
proof -
  have e: "events (promises two_listeners 0) EvResolved =
             Some (Many [Raw ''boom'' boom, Raw ''seen'' ok])"
    and t: "trace two_listeners = []"
    by (simp_all add: two_listeners_def eval_defs)
  have "emit 0 0 EvResolved [VInt 1] two_listeners =
          Some (Some (UserError ''boom''), record_call (Called ''boom'' [VInt 1]) two_listeners)"
    using e by (simp add: emit_def get_promise_def apply_listener_def boom_def)
  with e t show ?thesis
    by (simp add: listeners_of_def get_promise_def raised_of_def trace_of_def record_call_def)
qed
subsection \<open>Late subscription\<close>

lemma get_promise_allocate:
  "p < next_ref w \<Longrightarrow> get_promise (allocate w) p = get_promise w p"
  "get_promise (allocate w) (next_ref w) = new_promise"
  by (simp_all add: allocate_def get_promise_def)

lemma get_promise_async: "get_promise (async t w) p = get_promise w p"
  by (simp add: async_def get_promise_def)

lemma queue_async: "queue (async t w) = queue w @ [t]" "trace (async t w) = trace w"
  by (simp_all add: async_def)

lemma state_of_on_event:
  "state_of (get_promise (on_event p t l w) q) = state_of (get_promise w q) \<and>
   settled (get_promise (on_event p t l w) q) = settled (get_promise w q) \<and>
   queue (on_event p t l w) = queue w \<and> trace (on_event p t l w) = trace w"
  by (simp add: on_event_def Let_def set_promise_def get_promise_def state_of_def)

lemma resolve_plain:
  "plain w x \<Longrightarrow> resolve n p x w = Some (None, fulfill p x w)"
  by (cases "x = VPromise p")
     (simp_all add: resolve_unfold [of n] resolve_body_def handle_thenable_body_plain)

text \<open>
  \<^verbatim>\<open>then\<close> on a settled promise calls no function of the user and appends one task to
  the queue, the fulfilment reaction on a fulfilled promise and the rejection reaction on
  a rejected one; the derived promise is pending.
\<close>

lemma late_then_schedules:
  assumes "p < next_ref w" and "settled (get_promise w p)" and "pinv (get_promise w p)"
  shows "\<exists>w'. Promise_then n p done fail prog w = Some (Inr (next_ref w), w') \<and>
           trace w' = trace w \<and>
           queue w' = queue w @ [if fulfilled (get_promise w p) then LateDone p (next_ref w) done
                                 else LateFail p (next_ref w) fail] \<and>
           rejected (get_promise w p) = (\<not> fulfilled (get_promise w p)) \<and>
           state_of (get_promise w' p) = state_of (get_promise w p) \<and>
           state_of (get_promise w' (next_ref w)) = Pending"
proof -
  have a: "settled (get_promise (allocate w) p)" "pinv (get_promise (allocate w) p)"
    using assms by (simp_all add: get_promise_allocate)
  have 1: "then_reactions p (next_ref w) done fail (allocate w) =
             async (late_reaction (get_promise w p) p (next_ref w) done fail) (allocate w)"
    using then_reactions_settled [OF a] assms(1) by (simp add: get_promise_allocate)
  have 2: "trace (allocate w) = trace w" "queue (allocate w) = queue w"
    by (simp_all add: allocate_def)
  have 3: "rejected (get_promise w p) = (\<not> fulfilled (get_promise w p))"
    using assms(2,3) by (auto simp: pinv_def)
  have 4: "state_of new_promise = Pending" by (simp add: state_of_def new_promise_def)
  show ?thesis
    using assms(1)
    by (simp add: Promise_then_eq 1 2 3 4 state_of_on_event get_promise_async
          get_promise_allocate queue_async late_reaction_def)
qed

text \<open>
  When the scheduler runs the reaction, the handler is called with the outcome that the
  promise has stored, and the pending derived promise is resolved with what the handler
  returns (here a value without a \<^verbatim>\<open>then\<close> function).
\<close>

lemma late_reaction_calls_handler:
  assumes "\<not> settled (get_promise w d)" and "plain w y" and "y \<noteq> VPromise d"
  shows "f [fulfillment_value (get_promise w p)] = Inr y \<Longrightarrow>
           run_task n (LateDone p d (Fn name f)) w =
             Some (None, fulfill d y
                     (record_call (Called name [fulfillment_value (get_promise w p)]) w))"
    and "f [rejected_reason (get_promise w p)] = Inr y \<Longrightarrow>
           run_task n (LateFail p d (Fn name f)) w =
             Some (None, fulfill d y
                     (record_call (Called name [rejected_reason (get_promise w p)]) w))"
proof -
  have s: "\<not> settled (get_promise (record_call c w) d)" for c
    using assms(1) by (simp add: record_call_def get_promise_def)
  have p: "plain (record_call c w) y" for c
    using assms(2) by (cases y) (simp_all add: plain_def get_then_def record_call_def)
  show "f [fulfillment_value (get_promise w p)] = Inr y \<Longrightarrow>
           run_task n (LateDone p d (Fn name f)) w =
             Some (None, fulfill d y
                     (record_call (Called name [fulfillment_value (get_promise w p)]) w))"
    using assms(1,3) p
    by (simp add: run_task_def invoke_callback_returns settle_derived_def
          handle_thenable_plain resolve_plain)
  show "f [rejected_reason (get_promise w p)] = Inr y \<Longrightarrow>
           run_task n (LateFail p d (Fn name f)) w =
             Some (None, fulfill d y
                     (record_call (Called name [rejected_reason (get_promise w p)]) w))"
    using assms(1,3) p
    by (simp add: run_task_def invoke_callback_returns settle_derived_def
          handle_thenable_plain resolve_plain)
qed

text \<open>
  C8, at a failing input: a promise with a canceller, on which \<^verbatim>\<open>then(None, h)\<close> and
  \<^verbatim>\<open>cancel()\<close> are called. When \<^verbatim>\<open>then\<close> comes after \<^verbatim>\<open>cancel()\<close>, it calls nothing and
  queues the rejection reaction, and the first turn of the scheduler calls \<open>h\<close> with the
  stored \<^verbatim>\<open>CancelException\<close> and fulfils the derived promise with its result. When \<^verbatim>\<open>then\<close>
  comes before \<^verbatim>\<open>cancel()\<close>, the call of \<^verbatim>\<open>tryer\<close> with the event raises \<^verbatim>\<open>TypeError\<close> out
  of \<^verbatim>\<open>cancel()\<close> before the rejected event is scheduled: the promise is rejected with the
  same reason, the queue is empty, \<open>h\<close> is never called and the derived promise stays
  pending.
\<close>

theorem late_registration_differs:
  "Promise_cancel 1 0 with_canceller =
     Some (Some (TypeError ''tryer() takes 0 positional arguments but 1 was given''),
           cancel_before_then) \<and>
   state_of (get_promise cancel_before_then 0) = Rejected (VExn (CancelException ''Cancelled'')) \<and>
   Promise_then 1 0 NotFn (Fn ''h'' ok) NotFn cancel_before_then = Some (Inr 1, then_after_cancel) \<and>
   trace then_after_cancel = [] \<and>
   queue then_after_cancel = [LateFail 0 1 (Fn ''h'' ok)] \<and>
   trace_of (step 1 then_after_cancel) = [Called ''h'' [VExn (CancelException ''Cancelled'')]] \<and>
   state_in (step 1 then_after_cancel) 1 = Fulfilled VNone \<and>
   Promise_then 1 0 NotFn (Fn ''h'' ok) NotFn with_canceller = Some (Inr 1, then_before_cancel) \<and>
   Promise_cancel 1 0 then_before_cancel =
     Some (Some (TypeError ''tryer() takes 0 positional arguments but 1 was given''),
           cancel_after_then) \<and>
   state_of (get_promise cancel_after_then 0) = Rejected (VExn (CancelException ''Cancelled'')) \<and>
   queue cancel_after_then = [] \<and>
   run 1 3 cancel_after_then = Some cancel_after_then \<and>
   trace cancel_after_then = [] \<and>
   state_of (get_promise cancel_after_then 1) = Pending"
proof -
  have wc: "events (promises with_canceller 0) EvCancelled = Some (Single (Tryer (Fn ''canceller'' ok)))"
      "\<not> settled (promises with_canceller 0)" "next_ref with_canceller = 1"
      "\<not> fulfilled (promises with_canceller 0)"
      "trace with_canceller = []" "queue with_canceller = []"
    by (simp_all add: with_canceller_def eval_defs)
  have c1: "Promise_cancel 1 0 with_canceller =
              Some (Some (takes_no_argument ''tryer''), cancel_before_then)"
    using wc
    by (simp add: Promise_cancel_def cancel_pending get_promise_def emit_def apply_listener_def
          settle_cancelled_def set_promise_def cancel_before_then_def)
  have cb: "settled (promises cancel_before_then 0)" "rejected (promises cancel_before_then 0)"
      "\<not> fulfilled (promises cancel_before_then 0)" "next_ref cancel_before_then = 1"
      "rejected_reason (promises cancel_before_then 0) = cancelled_reason"
      "trace cancel_before_then = []" "queue cancel_before_then = []"
    using wc
    by (simp_all add: cancel_before_then_def settle_cancelled_def set_promise_def get_promise_def)
  have t1: "Promise_then 1 0 NotFn (Fn ''h'' ok) NotFn cancel_before_then =
              Some (Inr 1, then_after_cancel)"
    using cb
    by (simp add: Promise_then_eq then_after_cancel_def then_reactions_def Let_def
          get_promise_def allocate_def async_def)
  have ta: "trace then_after_cancel = []" "queue then_after_cancel = [LateFail 0 1 (Fn ''h'' ok)]"
      "rejected_reason (promises then_after_cancel 0) = cancelled_reason"
      "\<not> settled (promises then_after_cancel 1)" "\<not> fulfilled (promises then_after_cancel 1)"
      "\<not> rejected (promises then_after_cancel 1)"
    using cb
    by (simp_all add: then_after_cancel_def on_event_def Let_def set_promise_def get_promise_def
          allocate_def async_def new_promise_def)
  let ?w = "then_after_cancel\<lparr>queue := []\<rparr>"
  have "run_task 1 (LateFail 0 1 (Fn ''h'' ok)) ?w =
          Some (None, fulfill 1 VNone
                  (record_call (Called ''h'' [rejected_reason (get_promise ?w 0)]) ?w))"
    using ta by (intro late_reaction_calls_handler)
      (simp_all add: get_promise_def plain_simps ok_def)
  then have s1: "step 1 then_after_cancel =
          Some (None, fulfill 1 VNone (record_call (Called ''h'' [cancelled_reason]) ?w))"
    using ta by (simp add: step_def get_promise_def)
  have l: "trace_of (step 1 then_after_cancel) = [Called ''h'' [cancelled_reason]]"
      "state_in (step 1 then_after_cancel) 1 = Fulfilled VNone"
    using ta unfolding s1
    by (simp_all add: trace_of_def state_in_def state_of_def fulfill_def Let_def async_def
          record_call_def set_promise_def get_promise_def)
  have t2: "Promise_then 1 0 NotFn (Fn ''h'' ok) NotFn with_canceller =
              Some (Inr 1, then_before_cancel)"
    using wc
    by (simp add: Promise_then_eq then_before_cancel_def then_reactions_def Let_def
          get_promise_def allocate_def)
  have tb: "events (promises then_before_cancel 0) EvCancelled =
              Some (Single (Tryer (Fn ''canceller'' ok)))"
      "\<not> settled (promises then_before_cancel 0)" "\<not> fulfilled (promises then_before_cancel 0)"
      "trace then_before_cancel = []" "queue then_before_cancel = []"
      "\<not> fulfilled (promises then_before_cancel 1)" "\<not> rejected (promises then_before_cancel 1)"
    using wc
    by (simp_all add: then_before_cancel_def on_event_def Let_def set_promise_def get_promise_def
          allocate_def new_promise_def)
  have c2: "Promise_cancel 1 0 then_before_cancel =
              Some (Some (takes_no_argument ''tryer''), cancel_after_then)"
    using tb
    by (simp add: Promise_cancel_def cancel_pending get_promise_def emit_def apply_listener_def
          settle_cancelled_def set_promise_def cancel_after_then_def)
  have ca: "queue cancel_after_then = []" "trace cancel_after_then = []"
      "state_of (get_promise cancel_after_then 0) = Rejected cancelled_reason"
      "state_of (get_promise cancel_after_then 1) = Pending"
    using tb
    by (simp_all add: cancel_after_then_def settle_cancelled_def set_promise_def get_promise_def
          state_of_def)
  have r: "run 1 3 cancel_after_then = Some cancel_after_then"
    using ca(1) by (simp add: numeral_3_eq_3 step_def)
  have sb: "state_of (get_promise cancel_before_then 0) = Rejected cancelled_reason"
    using cb by (simp add: state_of_def get_promise_def)
  show ?thesis
    using c1 sb t1 ta(1,2) l t2 c2 ca r
    by (simp add: takes_no_argument_def cancelled_reason_def)
qed
subsection \<open>Adoption\<close>

text \<open>
  The reaction of \<^verbatim>\<open>catch()\<close> without a handler passes on a reason that has no \<^verbatim>\<open>then\<close>
  function.
\<close>

lemma catch_passes_plain_reason:
  "\<not> settled (get_promise w d) \<Longrightarrow> plain w r \<Longrightarrow> r \<noteq> VPromise d \<Longrightarrow>
   invoke_callback n RejectOp d NotFn r w = Some (None, reject d r w)"
  by (simp add: invoke_callback_NotFn settle_derived_def handle_thenable_plain
        apply_resolver_def)

text \<open>
  Adoption of an object whose \<^verbatim>\<open>then\<close> is a function: resolving the pending promise 0
  with it registers the cancellation forwarder, calls \<^verbatim>\<open>then\<close> and leaves the promise
  pending; when the object calls \<^verbatim>\<open>on_done(5)\<close> on a later turn, the promise is fulfilled
  with 5.
\<close>

lemma function_thenable_adopted:
  "resolve 1 0 (VObj 0) adopting_later = Some (None, adopted_later) \<and>
   state_of (get_promise adopted_later 0) = Pending \<and>
   listeners_of (get_promise adopted_later 0) EvCancelled = [OnCancel (VObj 0)] \<and>
   trace adopted_later = [ThenCalled (VObj 0)] \<and>
   queue adopted_later = [DoneTask 0 (VObj 0) 0 (VInt 5)] \<and>
   state_in (step 1 adopted_later) 0 = Fulfilled (VInt 5)"
proof -
  have o: "get_then adopting_later (VObj 0) = ThenFn [KeepDone (VInt 5)] None"
    and c: "next_cell adopting_later = 0"
    by (simp_all add: adopting_later_def get_then_def eval_defs)
  have 1: "resolve 1 0 (VObj 0) adopting_later = Some (None, adopted_later)"
    using o c
    by (simp add: resolve_body_def handle_thenable_body_def adoption_end_def adopted_later_def)
  have a: "\<not> settled (promises adopted_later 0)" "\<not> fulfilled (promises adopted_later 0)"
      "\<not> rejected (promises adopted_later 0)"
      "events (promises adopted_later 0) EvCancelled = Some (Single (OnCancel (VObj 0)))"
      "trace adopted_later = [ThenCalled (VObj 0)]"
      "queue adopted_later = [DoneTask 0 (VObj 0) 0 (VInt 5)]"
      "\<not> cells adopted_later 0"
    by (simp_all add: adopted_later_def adopting_later_def new_cell_def eval_defs)
  let ?w = "adopted_later\<lparr>queue := []\<rparr>"
  have "plain (set_cell 0 ?w) (VInt 5)" by (rule plain_simps)
  then have r: "resolve 0 0 (VInt 5) (set_cell 0 ?w) = Some (None, fulfill 0 (VInt 5) (set_cell 0 ?w))"
    by (rule resolve_plain)
  have s: "step (Suc 0) adopted_later = Some (None, fulfill 0 (VInt 5) (set_cell 0 ?w))"
    using a r by (simp add: step_def run_task_def on_done_def on_done_body_def nested_def)
  have "\<not> settled (get_promise (set_cell 0 ?w) 0)"
    using a by (simp add: set_cell_def get_promise_def)
  from state_after_fulfill [OF this, of "VInt 5"]
  have "state_in (step 1 adopted_later) 0 = Fulfilled (VInt 5)"
    by (simp add: s state_in_def state_after_def)
  with 1 a show ?thesis
    by (simp add: state_of_def get_promise_def listeners_of_def)
qed

text \<open>
  The test \<^verbatim>\<open>value is val\<close> of \<^verbatim>\<open>on_done\<close>: object 0 has a \<^verbatim>\<open>then\<close> function that calls
  \<^verbatim>\<open>on_done\<close> with the object itself, and resolving the pending promise 0 with the object
  fulfils the promise with the object.
\<close>

lemma thenable_reporting_itself:
  "\<not> settled (get_promise self_passing 0) \<and>
   get_then self_passing (VObj 0) = ThenFn [CallDone (VObj 0)] None \<and>
   state_in (resolve 0 0 (VObj 0) self_passing) 0 = Fulfilled (VObj 0)"
proof -
  have 1: "\<not> settled (get_promise self_passing 0)"
    and 2: "get_then self_passing (VObj 0) = ThenFn [CallDone (VObj 0)] None"
    and c: "\<not> cells self_passing (next_cell self_passing)"
    by (simp_all add: self_passing_def get_then_def eval_defs)
  let ?w0 = "record_call (ThenCalled (VObj 0))
               (on_event 0 EvCancelled (OnCancel (VObj 0)) (new_cell self_passing))"
  let ?w1 = "set_cell (next_cell self_passing) ?w0"
  have c': "\<not> cells ?w0 (next_cell self_passing)"
    using c by (simp add: new_cell_def record_call_def on_event_def Let_def set_promise_def)
  have "settled (get_promise ?w1 0) = settled (get_promise self_passing 0)"
    by (simp add: set_cell_def new_cell_def record_call_def on_event_def Let_def set_promise_def
          get_promise_def)
  with 1 have 3: "\<not> settled (get_promise ?w1 0)" by simp
  have "resolve 0 0 (VObj 0) self_passing = Some (None, fulfill 0 (VObj 0) ?w1)"
    using 2 c'
    by (simp add: resolve_body_def handle_thenable_body_def on_done_body_def adoption_end_def)
  with state_after_fulfill [OF 3, of "VObj 0"] 1 2 show ?thesis
    by (simp add: state_in_def state_after_def)
qed

text \<open>
  C2, at a failing input: the value is a pending promise of this module, \<open>q\<close>, and
  \<^verbatim>\<open>Promise(lambda resolve, reject, notify: resolve(q))\<close> makes promise \<open>p\<close>. The attribute
  \<^verbatim>\<open>then\<close> of \<open>q\<close> is a bound method, for which \<^verbatim>\<open>isfunction\<close> is false: \<^verbatim>\<open>_handle_thenable\<close>
  does not call it and registers nothing, neither a listener on \<open>q\<close> nor the cancellation
  forwarder on \<open>p\<close>, and \<open>p\<close> is fulfilled at once with the object \<open>q\<close>. When \<open>q\<close> is
  fulfilled with 7 and the scheduler has run, \<open>p\<close> is still fulfilled with \<open>q\<close>, not
  with 7.
\<close>

theorem own_promise_not_adopted:
  "state_of (get_promise world1 0) = Pending \<and>
   Promise_init 1 (Executor [DoResolve (VPromise 0)] None) NotFn world1 =
     Some (Inr 1, resolved_with_promise) \<and>
   state_of (get_promise resolved_with_promise 0) = Pending \<and>
   state_of (get_promise resolved_with_promise 1) = Fulfilled (VPromise 0) \<and>
   trace resolved_with_promise = [] \<and>
   listeners_of (get_promise resolved_with_promise 0) EvResolved = [] \<and>
   listeners_of (get_promise resolved_with_promise 0) EvRejected = [] \<and>
   listeners_of (get_promise resolved_with_promise 1) EvCancelled = [] \<and>
   state_after (run 1 3 (fulfill 0 (VInt 7) resolved_with_promise)) 0 = Fulfilled (VInt 7) \<and>
   state_after (run 1 3 (fulfill 0 (VInt 7) resolved_with_promise)) 1 = Fulfilled (VPromise 0)"
proof -
  have n: "next_ref world1 = 1" and p0: "state_of (get_promise world1 0) = Pending"
    by (simp_all add: state_of_def eval_defs)
  have h: "handle_thenable_body rs (Suc 0) (VPromise 0) w = Some (Inr False, w)" for rs w
    by (simp add: handle_thenable_body_def get_then_def)
  have i: "Promise_init 1 (Executor [DoResolve (VPromise 0)] None) NotFn world1 =
             Some (Inr 1, resolved_with_promise)"
    by (simp add: Promise_init_Executor isfunction_def n resolve_body_def h constructed_def
          resolved_with_promise_def)
  have r: "state_of (get_promise resolved_with_promise 0) = Pending"
      "state_of (get_promise resolved_with_promise 1) = Fulfilled (VPromise 0)"
      "trace resolved_with_promise = []"
      "listeners_of (get_promise resolved_with_promise 0) EvResolved = []"
      "listeners_of (get_promise resolved_with_promise 0) EvRejected = []"
      "listeners_of (get_promise resolved_with_promise 1) EvCancelled = []"
    by (simp_all add: resolved_with_promise_def state_of_def listeners_of_def eval_defs)
  let ?w = "fulfill 0 (VInt 7) resolved_with_promise"
  have e: "events (promises ?w 0) EvResolved = None" "events (promises ?w 1) EvResolved = None"
    and q: "queue ?w = [EmitTask 1 EvResolved (VPromise 0), EmitTask 0 EvResolved (VInt 7)]"
    and v: "state_of (promises ?w 0) = Fulfilled (VInt 7)"
      "state_of (promises ?w 1) = Fulfilled (VPromise 0)"
    by (simp_all add: resolved_with_promise_def state_of_def eval_defs)
  have s1: "step (Suc 0) ?w = Some (None, ?w\<lparr>queue := [EmitTask 0 EvResolved (VInt 7)]\<rparr>)"
    using e q by (simp add: step_def run_task_def emit_def get_promise_def)
  have s2: "step (Suc 0) (?w\<lparr>queue := [EmitTask 0 EvResolved (VInt 7)]\<rparr>) =
              Some (None, ?w\<lparr>queue := []\<rparr>)"
    using e by (simp add: step_def run_task_def emit_def get_promise_def)
  have s3: "step (Suc 0) (?w\<lparr>queue := []\<rparr>) = Some (None, ?w\<lparr>queue := []\<rparr>)"
    by (simp add: step_def)
  have u: "run 1 3 ?w = Some (?w\<lparr>queue := []\<rparr>)"
    by (simp add: numeral_3_eq_3 s1 s2 s3)
  have l: "state_after (run 1 3 ?w) 0 = Fulfilled (VInt 7)"
      "state_after (run 1 3 ?w) 1 = Fulfilled (VPromise 0)"
    using v unfolding u by (simp_all add: state_after_def get_promise_def)
  from p0 i r l show ?thesis by simp
qed

end
